theory Spec2Isabelle
  imports Main "HOL-Library.Sublist"
begin

section \<open>Characters and the string functions of the Python library\<close>

text \<open>
  A Python \<open>str\<close> is modelled as a \<open>string\<close>: a list of characters with code
  points below 256. The character classes below are those of Python's \<open>re\<close> module
  for \<open>str\<close> patterns, restricted to that range.
\<close>

abbreviation bslash :: char where "bslash \<equiv> CHR 0x5C"
abbreviation dquote :: char where "dquote \<equiv> CHR 0x22"
abbreviation newline :: char where "newline \<equiv> CHR 0x0A"

text \<open>The class \<open>[A-Z]\<close>.\<close>

definition is_upper :: "char \<Rightarrow> bool" where
  "is_upper c = (65 \<le> (of_char c :: nat) \<and> (of_char c :: nat) \<le> 90)"

text \<open>The class \<open>[a-zA-Z0-9_]\<close>.\<close>

definition is_name_char :: "char \<Rightarrow> bool" where
  "is_name_char c =
     (let n = (of_char c :: nat)
      in (97 \<le> n \<and> n \<le> 122) \<or> (65 \<le> n \<and> n \<le> 90) \<or> (48 \<le> n \<and> n \<le> 57) \<or> n = 95)"

text \<open>
  The class \<open>\s\<close> of a \<open>str\<close> pattern: the characters for which
  \<open>str.isspace\<close> holds (tab, line feed, vertical tab, form feed, carriage return, the
  separators 0x1C to 0x1F, space, 0x85 and 0xA0).
\<close>

definition is_space :: "char \<Rightarrow> bool" where
  "is_space c =
     (let n = (of_char c :: nat)
      in (9 \<le> n \<and> n \<le> 13) \<or> (28 \<le> n \<and> n \<le> 32) \<or> n = 133 \<or> n = 160)"

text \<open>
  \<open>re.escape\<close> (Python 3.7 and later; the module's
  \<open>from __future__ import annotations\<close> needs 3.7): a backslash is put before each
  of the characters \<open>()[]{}?*+-|^$\.&~#\<close>, space, tab, line feed, carriage return,
  vertical tab and form feed. Every other character, the colon and the slash among them,
  is left as it is.
\<close>

definition special_chars :: "char list" where
  "special_chars =
     [CHR ''('', CHR '')'', CHR ''['', CHR '']'', CHR ''{'', CHR ''}'', CHR ''?'',
      CHR ''*'', CHR ''+'', CHR ''-'', CHR ''|'', CHR ''^'', CHR ''$'', bslash,
      CHR ''.'', CHR ''&'', CHR ''~'', CHR ''#'', CHR '' '', CHR 0x09, CHR 0x0A,
      CHR 0x0D, CHR 0x0B, CHR 0x0C]"

definition is_special :: "char \<Rightarrow> bool" where
  "is_special c = (c \<in> set special_chars)"

fun re_escape :: "string \<Rightarrow> string" where
  "re_escape [] = []"
| "re_escape (c # cs) = (if is_special c then bslash # c # re_escape cs else c # re_escape cs)"

text \<open>
  \<open>str.replace(old, new)\<close>: the occurrences of \<open>old\<close> are replaced from the left,
  without overlap. For the empty \<open>old\<close>, Python puts \<open>new\<close> before every character
  and at the end.
\<close>

function str_replace :: "string \<Rightarrow> string \<Rightarrow> string \<Rightarrow> string" where
  "str_replace old new [] = (if old = [] then new else [])"
| "str_replace old new (c # cs) =
     (if old = [] then new @ c # str_replace old new cs
      else if prefix old (c # cs) then new @ str_replace old new (drop (length old) (c # cs))
      else c # str_replace old new cs)"
  by pat_completeness auto
termination
  by (relation "measure (\<lambda>(old, new, s). length s)") (auto simp: Suc_lessI)

text \<open>\<open>s.count(c, lo, hi)\<close> for a one-character \<open>c\<close> and indices within the string.\<close>

definition str_count :: "string \<Rightarrow> char \<Rightarrow> nat \<Rightarrow> nat \<Rightarrow> nat" where
  "str_count s c lo hi = count_list (take (hi - lo) (drop lo s)) c"

text \<open>\<open>str.lower\<close> on code points below 256.\<close>

definition lower_char :: "char \<Rightarrow> char" where
  "lower_char c =
     (let n = (of_char c :: nat)
      in if (65 \<le> n \<and> n \<le> 90) \<or> (192 \<le> n \<and> n \<le> 222 \<and> n \<noteq> 215)
         then char_of (n + 32) else c)"

definition str_lower :: "string \<Rightarrow> string" where
  "str_lower s = map lower_char s"

text \<open>The decimal numeral of a natural number, as \<open>str(n)\<close> and an f-string print it.\<close>

definition digit_char :: "nat \<Rightarrow> char" where
  "digit_char d = char_of (48 + d)"

function str_of_nat :: "nat \<Rightarrow> string" where
  "str_of_nat n = (if n < 10 then [digit_char n] else str_of_nat (n div 10) @ [digit_char (n mod 10)])"
  by pat_completeness auto
termination
  by (relation "measure id") auto

text \<open>
  The format specification \<open><6\<close> of an f-string: the text is left-aligned in a field
  of at least six characters, filled with spaces on the right; a longer text is printed
  whole.
\<close>

definition ljust :: "nat \<Rightarrow> string \<Rightarrow> string" where
  "ljust w s = s @ replicate (w - length s) (CHR '' '')"

section \<open>The regular expressions of the module\<close>

subsection \<open>\<open>ROUTE_RE\<close>\<close>

text \<open>
  \<open>ROUTE_RE = re.compile(r"api\.([A-Z]+)\s*\(\s*\"([^\"]+)\"")\<close>.
  \<open>match_route s\<close> is a match of the pattern at the start of \<open>s\<close>: the two groups
  and the text after the match. Each repetition of the pattern is followed by a
  character outside its class (\<open>[A-Z]+\<close> by white space or the parenthesis,
  \<open>\s*\<close> by the parenthesis or the quote, \<open>[^"]+\<close> by the quote), so the
  greedy run is the only run that lets the rest of the pattern match, and backtracking
  finds no other match.
\<close>

definition match_route :: "string \<Rightarrow> (string \<times> string \<times> string) option" where
  "match_route s =
     (if \<not> prefix ''api.'' s then None
      else
        let s1 = drop 4 s;
            m = takeWhile is_upper s1;
            s2 = dropWhile is_space (dropWhile is_upper s1)
        in if m = [] then None
           else (case s2 of
                   [] \<Rightarrow> None
                 | c # s3 \<Rightarrow>
                     if c \<noteq> CHR ''('' then None
                     else (case dropWhile is_space s3 of
                             [] \<Rightarrow> None
                           | d # s4 \<Rightarrow>
                               if d \<noteq> dquote then None
                               else
                                 let p = takeWhile (\<lambda>x. x \<noteq> dquote) s4
                                 in if p = [] then None
                                    else (case dropWhile (\<lambda>x. x \<noteq> dquote) s4 of
                                            [] \<Rightarrow> None
                                          | e # s5 \<Rightarrow> Some (m, p, s5)))))"

lemma match_route_shorter:
  assumes "match_route s = Some (m, p, r)"
  shows "length r < length s"
proof -
  have le: "\<And>P (xs :: string). length (dropWhile P xs) \<le> length xs"
    by (simp add: length_dropWhile_le)
  from assms obtain c s3 d s4 e where
    a: "dropWhile is_space (dropWhile is_upper (drop 4 s)) = c # s3" and
    b: "dropWhile is_space s3 = d # s4" and
    c: "dropWhile (\<lambda>x. x \<noteq> dquote) s4 = e # r"
    by (auto simp: match_route_def Let_def split: if_splits list.splits)
  have "length r < length s4" using le [of "\<lambda>x. x \<noteq> dquote" s4] c by simp
  also have "length s4 < length s3" using le [of is_space s3] b by simp
  also have "length s3 < length (dropWhile is_upper (drop 4 s))"
    using le [of is_space "dropWhile is_upper (drop 4 s)"] a by simp
  also have "\<dots> \<le> length (drop 4 s)" by (rule le)
  also have "\<dots> \<le> length s" by simp
  finally show ?thesis .
qed

text \<open>
  \<open>ROUTE_RE.finditer(content)\<close>: the matches from left to right, the search going on
  where the last match ended. A match is given as its start index and its two groups;
  \<open>pos\<close> is the index in the whole text of the first character of the text still to
  search.
\<close>

function finditer_route :: "nat \<Rightarrow> string \<Rightarrow> (nat \<times> string \<times> string) list" where
  "finditer_route pos [] = []"
| "finditer_route pos (c # cs) =
     (case match_route (c # cs) of
        None \<Rightarrow> finditer_route (Suc pos) cs
      | Some (m, p, r) \<Rightarrow> (pos, m, p) # finditer_route (pos + (length (c # cs) - length r)) r)"
  by pat_completeness auto
termination
  by (relation "measure (\<lambda>(pos, s). length s)") (auto dest: match_route_shorter)

subsection \<open>\<open>PARAM_RE\<close>\<close>

text \<open>
  \<open>PARAM_RE = re.compile(r"\\:([a-zA-Z0-9_]+)")\<close>: a backslash, a colon and a run
  of name characters, which the greedy repetition takes whole.
  \<open>match_param s\<close> is the text after a match at the start of \<open>s\<close>.
\<close>

definition match_param :: "string \<Rightarrow> string option" where
  "match_param s =
     (case s of
        a # b # c # cs \<Rightarrow>
          if a = bslash \<and> b = CHR '':'' \<and> is_name_char c then Some (dropWhile is_name_char cs)
          else None
      | _ \<Rightarrow> None)"

lemma match_param_shorter: "match_param s = Some r \<Longrightarrow> length r < length s"
  by (auto simp: match_param_def less_Suc_eq_le length_dropWhile_le le_SucI
           split: list.splits if_splits)

text \<open>
  \<open>PARAM_RE.sub(repl, s)\<close> for a replacement text without group references or
  backslashes: every match, from the left and without overlap, is replaced by
  \<open>repl\<close>.
\<close>

function param_sub :: "string \<Rightarrow> string \<Rightarrow> string" where
  "param_sub repl [] = []"
| "param_sub repl (c # cs) =
     (case match_param (c # cs) of
        None \<Rightarrow> c # param_sub repl cs
      | Some r \<Rightarrow> repl @ param_sub repl r)"
  by pat_completeness auto
termination
  by (relation "measure (\<lambda>(repl, s). length s)") (auto dest: match_param_shorter)

subsection \<open>Compiled patterns\<close>

text \<open>
  The patterns that \<open>build_regex\<close> hands to \<open>re.compile\<close> are written with an
  escaped character, a plain character, the two classes \<open>[^/]\<close> and \<open>[^\s]\<close>,
  the anchor \<open>^\<close> and the repetitions \<open>+\<close> and \<open>*\<close> of one character or
  class. A compiled pattern is the list of these items, in the order of the text.
\<close>

datatype cclass = Lit char | NotSlash | NotSpace

datatype rep = Once | Plus | Star

datatype item = Bol | Rep cclass rep

type_synonym pattern = "item list"

text \<open>The class \<open>[a-zA-Z0-9]\<close>: after a backslash these start an escape sequence.\<close>

definition is_alnum :: "char \<Rightarrow> bool" where
  "is_alnum c = (is_name_char c \<and> c \<noteq> CHR ''_'')"

text \<open>
  One item without its repetition, read from the start of the pattern text:
  \<^item> a backslash and a character that is no ASCII letter or digit is that character;
  \<^item> \<open>[^/]\<close> and \<open>[^\s]\<close> are the two classes;
  \<open>^\<close> is the start of the text (no flag is given, so not the start of a line);
  \<^item> a character that is none of \<open>.$()|{?*+[\<close> and no backslash is itself (the
    closing bracket and brace too, outside a class or repetition).
  \<open>None\<close> stands for \<open>re.error\<close> and for every construct outside this fragment.
\<close>

definition parse_atom :: "string \<Rightarrow> (item \<times> string) option" where
  "parse_atom s =
     (case s of
        [] \<Rightarrow> None
      | c # cs \<Rightarrow>
          if c = bslash then
            (case cs of
               [] \<Rightarrow> None
             | d # ds \<Rightarrow> if is_alnum d then None else Some (Rep (Lit d) Once, ds))
          else if c = CHR ''['' then
            (if prefix ''^/]'' cs then Some (Rep NotSlash Once, drop 3 cs)
             else if prefix [CHR ''^'', bslash, CHR ''s'', CHR '']''] cs
               then Some (Rep NotSpace Once, drop 4 cs)
             else None)
          else if c = CHR ''^'' then Some (Bol, cs)
          else if c \<in> set ''.$()|{?*+'' then None
          else Some (Rep (Lit c) Once, cs))"

text \<open>
  The repetition after an item: \<open>*\<close> or \<open>+\<close> (the anchor has nothing to repeat,
  which is an error). A second repetition character after it is read as the start of
  the next item, where \<open>parse_atom\<close> refuses it.
\<close>

definition parse_rep :: "item \<Rightarrow> string \<Rightarrow> (item \<times> string) option" where
  "parse_rep it s =
     (case s of
        [] \<Rightarrow> Some (it, [])
      | q # qs \<Rightarrow>
          if q = CHR ''*'' \<or> q = CHR ''+'' then
            (case it of
               Bol \<Rightarrow> None
             | Rep k r \<Rightarrow> Some (Rep k (if q = CHR ''*'' then Star else Plus), qs))
          else Some (it, s))"

lemma parse_atom_shorter: "parse_atom s = Some (it, r) \<Longrightarrow> length r < length s"
  by (auto simp: parse_atom_def split: list.splits if_splits)

lemma parse_rep_shorter: "parse_rep it s = Some (it', r) \<Longrightarrow> length r \<le> length s"
  by (auto simp: parse_rep_def split: list.splits if_splits item.splits)

function re_compile :: "string \<Rightarrow> pattern option" where
  "re_compile [] = Some []"
| "re_compile (c # cs) =
     (case parse_atom (c # cs) of
        None \<Rightarrow> None
      | Some (it, r) \<Rightarrow>
          (case parse_rep it r of
             None \<Rightarrow> None
           | Some (it', r') \<Rightarrow>
               (case re_compile r' of
                  None \<Rightarrow> None
                | Some its \<Rightarrow> Some (it' # its))))"
  by pat_completeness auto
termination
proof (relation "measure length")
  fix c cs x2 it r x2a it' r'
  assume "parse_atom (c # cs) = Some x2" "(it, r) = x2"
    "parse_rep it r = Some x2a" "(it', r') = x2a"
  then have "length r < length (c # cs)" "length r' \<le> length r"
    using parse_atom_shorter [of "c # cs" it r] parse_rep_shorter [of it r it' r'] by auto
  then show "(r', c # cs) \<in> measure length" by simp
qed simp

text \<open>Whether a class takes a character.\<close>

fun accepts :: "cclass \<Rightarrow> char \<Rightarrow> bool" where
  "accepts (Lit d) c = (c = d)"
| "accepts NotSlash c = (c \<noteq> CHR ''/'')"
| "accepts NotSpace c = (\<not> is_space c)"

text \<open>
  \<open>match_here its b s\<close>: the items match a prefix of \<open>s\<close>, where \<open>b\<close> says
  whether \<open>s\<close> starts at the start of the searched text. Only the existence of a
  match is computed, so the order in which a greedy repetition tries its runs does not
  show.
\<close>

fun match_here :: "pattern \<Rightarrow> bool \<Rightarrow> string \<Rightarrow> bool" where
  "match_here [] b s = True"
| "match_here (Bol # its) b s = (b \<and> match_here its b s)"
| "match_here (Rep k Once # its) b [] = False"
| "match_here (Rep k Once # its) b (c # cs) = (accepts k c \<and> match_here its False cs)"
| "match_here (Rep k Plus # its) b [] = False"
| "match_here (Rep k Plus # its) b (c # cs) =
     (accepts k c \<and> match_here (Rep k Star # its) False cs)"
| "match_here (Rep k Star # its) b [] = match_here its b []"
| "match_here (Rep k Star # its) b (c # cs) =
     (match_here its b (c # cs) \<or> (accepts k c \<and> match_here (Rep k Star # its) False cs))"

text \<open>
  \<open>Pattern.search(text)\<close> finds a match starting at any index of the text, the end
  of the text included; the result is used for its truth value only.
\<close>

fun search_from :: "pattern \<Rightarrow> bool \<Rightarrow> string \<Rightarrow> bool" where
  "search_from its b [] = match_here its b []"
| "search_from its b (c # cs) = (match_here its b (c # cs) \<or> search_from its False cs)"

definition re_search :: "pattern \<Rightarrow> string \<Rightarrow> bool" where
  "re_search its s = search_from its True s"

section \<open>The data model\<close>

text \<open>
  A path is the list of its components below the root of the file system. A node is
  \<^item> a directory;
  \<^item> a file that can be opened, with what \<open>read_text(encoding="utf-8")\<close> gives for
    it: its text, or nothing when its bytes are not UTF-8;
  \<^item> a file that the process may not read: opening it raises \<open>PermissionError\<close>;
  \<^item> a symbolic link whose target is missing: a traversal lists it, \<open>exists()\<close> and
    \<open>is_dir()\<close> are false for it, and opening it raises \<open>FileNotFoundError\<close>.
  \<open>entries\<close> lists the nodes in the order in which a traversal yields them;
  \<open>repo_root\<close> is \<open>REPO_ROOT\<close>, the parent of the directory that holds the script.
\<close>

type_synonym fpath = "string list"

datatype node = Directory | File "string option" | Unreadable | Dangling

record filesystem =
  repo_root :: fpath
  entries :: "(fpath \<times> node) list"

text \<open>
  What the program can raise: \<open>SystemExit\<close> with its message, and the exceptions of
  the library calls.
\<close>

datatype error =
    SystemExit string
  | UnicodeDecodeError
  | FileNotFoundError
  | PermissionError
  | IsADirectoryError
  | ValueError
  | ReError

text \<open>
  The class \<open>Endpoint\<close>. The field \<open>method\<close> is written \<open>method'\<close>; \<open>line\<close>
  is a count plus one, a natural number.
\<close>

record endpoint =
  method' :: string
  path :: string
  line :: nat
  regex :: "pattern option"
  used :: bool
  matches :: "fpath list"

definition MAIN_FILE :: "filesystem \<Rightarrow> fpath" where
  "MAIN_FILE fs = repo_root fs @ [''cmd'', ''sdsm'', ''main.go'']"

definition UI_DIRS :: "filesystem \<Rightarrow> fpath list" where
  "UI_DIRS fs = [repo_root fs @ [''ui''], repo_root fs @ [''webassets'']]"

definition TEXT_EXTENSIONS :: "string set" where
  "TEXT_EXTENSIONS =
     {''.html'', ''.htm'', ''.js'', ''.ts'', ''.tsx'', ''.css'', ''.scss'', ''.go'',
      ''.json'', ''.md'', ''.txt'', ''.tmpl''}"

subsection \<open>The operations of \<open>pathlib\<close>\<close>

definition path_exists :: "filesystem \<Rightarrow> fpath \<Rightarrow> bool" where
  "path_exists fs p =
     (case map_of (entries fs) p of
        None \<Rightarrow> False
      | Some Dangling \<Rightarrow> False
      | Some n \<Rightarrow> True)"

definition is_dir :: "filesystem \<Rightarrow> fpath \<Rightarrow> bool" where
  "is_dir fs p = (map_of (entries fs) p = Some Directory)"

definition read_text :: "filesystem \<Rightarrow> fpath \<Rightarrow> error + string" where
  "read_text fs p =
     (case map_of (entries fs) p of
        None \<Rightarrow> Inl FileNotFoundError
      | Some Directory \<Rightarrow> Inl IsADirectoryError
      | Some (File None) \<Rightarrow> Inl UnicodeDecodeError
      | Some (File (Some t)) \<Rightarrow> Inr t
      | Some Unreadable \<Rightarrow> Inl PermissionError
      | Some Dangling \<Rightarrow> Inl FileNotFoundError)"

text \<open>\<open>base.rglob("*")\<close>: every node below a directory, none for anything else.\<close>

definition rglob :: "filesystem \<Rightarrow> fpath \<Rightarrow> fpath list" where
  "rglob fs base =
     (if is_dir fs base then filter (strict_prefix base) (map fst (entries fs)) else [])"

text \<open>
  \<open>p.relative_to(other)\<close> drops the components of \<open>other\<close> and raises
  \<open>ValueError\<close> when \<open>p\<close> is not below it.
\<close>

definition relative_to :: "fpath \<Rightarrow> fpath \<Rightarrow> error + fpath" where
  "relative_to p other = (if prefix other p then Inr (drop (length other) p) else Inl ValueError)"

text \<open>\<open>str(p)\<close> for an absolute POSIX path.\<close>

definition path_str :: "fpath \<Rightarrow> string" where
  "path_str p = (if p = [] then ''/'' else concat (map (\<lambda>c. CHR ''/'' # c) p))"

text \<open>
  \<open>p.suffix\<close>: the last component from its last dot on, when that dot is neither its
  first nor its last character; the empty string otherwise.
\<close>

definition path_suffix :: "fpath \<Rightarrow> string" where
  "path_suffix p =
     (let name = (if p = [] then [] else last p);
          ext = rev (takeWhile (\<lambda>c. c \<noteq> CHR ''.'') (rev name));
          i = length name - length ext - 1
      in if CHR ''.'' \<in> set name \<and> 0 < i \<and> ext \<noteq> [] then drop i name else [])"

section \<open>The program\<close>

subsection \<open>\<open>Endpoint\<close>\<close>

definition full_path :: "endpoint \<Rightarrow> string" where
  "full_path ep = ''/api'' @ path ep"

text \<open>
  \<open>build_regex\<close>: the three rewriting steps on the text of the pattern, then
  \<open>re.compile\<close>.
\<close>

definition build_regex :: "endpoint \<Rightarrow> error + pattern" where
  "build_regex ep =
     (let escaped = re_escape (full_path ep);
          pattern = param_sub ''[^/]+'' escaped;
          pattern = str_replace [bslash, CHR ''*''] [CHR ''['', CHR ''^'', bslash, CHR ''s'', CHR '']'', CHR ''*''] pattern
      in case re_compile pattern of None \<Rightarrow> Inl ReError | Some r \<Rightarrow> Inr r)"

subsection \<open>\<open>parse_endpoints\<close>\<close>

text \<open>
  The dictionary \<open>unique\<close> keeps its keys in the order of their insertion: an
  association list. The loop inserts an endpoint only under a key that is not there yet.
\<close>

fun dedup :: "endpoint list \<Rightarrow> ((string \<times> string) \<times> endpoint) list \<Rightarrow> ((string \<times> string) \<times> endpoint) list" where
  "dedup [] unique = unique"
| "dedup (ep # eps) unique =
     (let key = (method' ep, path ep)
      in if key \<notin> fst ` set unique then dedup eps (unique @ [(key, ep)]) else dedup eps unique)"

text \<open>The last loop: each endpoint gets its compiled pattern; an error ends the loop.\<close>

fun compile_all :: "endpoint list \<Rightarrow> error + endpoint list" where
  "compile_all [] = Inr []"
| "compile_all (ep # eps) =
     (case build_regex ep of
        Inl e \<Rightarrow> Inl e
      | Inr r \<Rightarrow>
          (case compile_all eps of
             Inl e \<Rightarrow> Inl e
           | Inr eps' \<Rightarrow> Inr (ep\<lparr>regex := Some r\<rparr> # eps')))"

definition new_endpoint :: "string \<Rightarrow> nat \<times> string \<times> string \<Rightarrow> endpoint" where
  "new_endpoint content mt =
     (case mt of (start, m, p) \<Rightarrow>
        \<lparr>method' = m, path = p, line = str_count content newline 0 start + 1,
         regex = None, used = False, matches = []\<rparr>)"

definition parse_endpoints :: "filesystem \<Rightarrow> error + endpoint list" where
  "parse_endpoints fs =
     (if \<not> path_exists fs (MAIN_FILE fs)
      then Inl (SystemExit (''Cannot locate main.go at '' @ path_str (MAIN_FILE fs)))
      else
        (case read_text fs (MAIN_FILE fs) of
           Inl e \<Rightarrow> Inl e
         | Inr content \<Rightarrow>
             let endpoints = map (new_endpoint content) (finditer_route 0 content);
                 unique = dedup endpoints [];
                 endpoints = map snd unique
             in compile_all endpoints))"

subsection \<open>\<open>iter_ui_files\<close> and \<open>scan_usage\<close>\<close>

definition iter_ui_files :: "filesystem \<Rightarrow> fpath list" where
  "iter_ui_files fs =
     concat (map (\<lambda>base.
       if \<not> path_exists fs base then []
       else filter (\<lambda>p. \<not> is_dir fs p \<and> str_lower (path_suffix p) \<in> TEXT_EXTENSIONS)
              (rglob fs base)) (UI_DIRS fs))"

text \<open>The body of the inner loop of \<open>scan_usage\<close>, for one endpoint and one file.\<close>

definition scan_endpoint :: "fpath \<Rightarrow> string \<Rightarrow> endpoint \<Rightarrow> endpoint" where
  "scan_endpoint rel text ep =
     (if used ep then ep
      else if (case regex ep of None \<Rightarrow> False | Some r \<Rightarrow> re_search r text)
      then ep\<lparr>used := True, matches := matches ep @ [rel]\<rparr>
      else ep)"

text \<open>
  The outer loop. Only \<open>UnicodeDecodeError\<close> is caught; the endpoints of the list
  are distinct objects, so the inner loop is a map over the list.
\<close>

fun scan_files :: "filesystem \<Rightarrow> fpath list \<Rightarrow> endpoint list \<Rightarrow> error + endpoint list" where
  "scan_files fs [] eps = Inr eps"
| "scan_files fs (file_path # files) eps =
     (case read_text fs file_path of
        Inl e \<Rightarrow> if e = UnicodeDecodeError then scan_files fs files eps else Inl e
      | Inr text \<Rightarrow>
          (case relative_to file_path (repo_root fs) of
             Inl e \<Rightarrow> Inl e
           | Inr rel \<Rightarrow> scan_files fs files (map (scan_endpoint rel text) eps)))"

definition scan_usage :: "filesystem \<Rightarrow> endpoint list \<Rightarrow> error + endpoint list" where
  "scan_usage fs eps = scan_files fs (iter_ui_files fs) eps"

subsection \<open>\<open>main\<close>\<close>

text \<open>Standard output is a string; \<open>print\<close> adds its argument and a line feed.\<close>

definition print_line :: "string \<Rightarrow> string \<Rightarrow> string" where
  "print_line out s = out @ s @ [newline]"

definition unused_line :: "endpoint \<Rightarrow> string" where
  "unused_line ep =
     ''  - '' @ ljust 6 (method' ep) @ '' '' @ full_path ep @ '' (defined line ''
       @ str_of_nat (line ep) @ '')''"

definition note_text :: string where
  "note_text =
     ''NOTE: Some endpoints might be consumed by non-UI clients (CLI, integrations).''
       @ [newline]
       @ ''Use this report as a starting point and double-check before removing anything.''"

text \<open>The part of \<open>main\<close> after the scan: the report on the scanned endpoints.\<close>

definition report :: "endpoint list \<Rightarrow> string" where
  "report endpoints =
     (let unused = filter (\<lambda>ep. \<not> used ep) endpoints;
          n_used = length endpoints - length unused;
          out = print_line [] (''Total API endpoints found: '' @ str_of_nat (length endpoints));
          out = print_line out (''Used by UI artifacts:      '' @ str_of_nat n_used);
          out = print_line out (''Unused in UI (potential):  '' @ str_of_nat (length unused));
          out = print_line out []
      in if unused \<noteq> [] then
           let out = print_line out ''Endpoints without matches in ui/* or webassets/*:'';
               out = foldl (\<lambda>out ep. print_line out (unused_line ep)) out unused;
               out = print_line out []
           in print_line out note_text
         else print_line out ''All parsed endpoints have at least one UI reference.'')"

text \<open>
  \<open>main\<close>: what was printed, and the exception that ended the run, if one did.
  Nothing is printed before \<open>scan_usage\<close> has returned.
\<close>

definition main :: "filesystem \<Rightarrow> string \<times> error option" where
  "main fs =
     (case parse_endpoints fs of
        Inl e \<Rightarrow> ([], Some e)
      | Inr endpoints \<Rightarrow>
          if endpoints = [] then (print_line [] ''No API endpoints parsed.'', None)
          else
            (case scan_usage fs endpoints of
               Inl e \<Rightarrow> ([], Some e)
             | Inr endpoints' \<Rightarrow> (report endpoints', None)))"

section \<open>Notions used in the statements\<close>

text \<open>The test of the inner loop: the endpoint has a pattern and it is found in the text.\<close>

definition pattern_found :: "endpoint \<Rightarrow> string \<Rightarrow> bool" where
  "pattern_found ep text = (case regex ep of None \<Rightarrow> False | Some r \<Rightarrow> re_search r text)"

text \<open>
  The files that take part in the scan, in the order of the scan, each with its path
  relative to the repository root and its text: the files that \<open>iter_ui_files\<close>
  yields and \<open>read_text\<close> decodes.
\<close>

definition scanned_files :: "filesystem \<Rightarrow> (fpath \<times> string) list" where
  "scanned_files fs =
     List.map_filter (\<lambda>p. case read_text fs p of
                             Inl e \<Rightarrow> None
                           | Inr text \<Rightarrow> Some (drop (length (repo_root fs)) p, text))
       (iter_ui_files fs)"

text \<open>
  The exception that ends the scan, if one does: that of the first listed file whose
  opening raises anything but \<open>UnicodeDecodeError\<close>.
\<close>

fun first_error :: "filesystem \<Rightarrow> fpath list \<Rightarrow> error option" where
  "first_error fs [] = None"
| "first_error fs (p # ps) =
     (case read_text fs p of
        Inl e \<Rightarrow> if e = UnicodeDecodeError then first_error fs ps else Some e
      | Inr t \<Rightarrow> first_error fs ps)"

definition scan_error :: "filesystem \<Rightarrow> error option" where
  "scan_error fs = first_error fs (iter_ui_files fs)"

text \<open>
  The scan as seen from one endpoint: the first file of the list in which its pattern
  is found is recorded, unless the endpoint is used already.
\<close>

definition scan_one :: "(fpath \<times> string) list \<Rightarrow> endpoint \<Rightarrow> endpoint" where
  "scan_one files ep =
     (if used ep then ep
      else case find (\<lambda>(rel, text). pattern_found ep text) files of
             None \<Rightarrow> ep
           | Some (rel, text) \<Rightarrow> ep\<lparr>used := True, matches := matches ep @ [rel]\<rparr>)"

text \<open>
  The key of the dictionary \<open>unique\<close>, and the endpoints of a list that are the first
  of their key, in the order of the list.
\<close>

definition route_key :: "endpoint \<Rightarrow> string \<times> string" where
  "route_key ep = (method' ep, path ep)"

fun firsts :: "endpoint list \<Rightarrow> endpoint list" where
  "firsts [] = []"
| "firsts (e # es) = e # filter (\<lambda>x. route_key x \<noteq> route_key e) (firsts es)"

text \<open>
  An occurrence of the shape of a route declaration in a text: from the index \<open>st\<close> up
  to the index \<open>en\<close> the text reads \<open>api.\<close>, a method of one or more of the letters
  \<open>A\<close> to \<open>Z\<close>, white space or none, a parenthesis, white space or none, and
  between two double quotes a path of one or more characters other than the double
  quote.
\<close>

definition route_at :: "string \<Rightarrow> nat \<Rightarrow> string \<Rightarrow> string \<Rightarrow> nat \<Rightarrow> bool" where
  "route_at content st m p en \<longleftrightarrow>
     (\<exists>ws1 ws2. st \<le> en \<and> en \<le> length content \<and>
        take (en - st) (drop st content) =
          ''api.'' @ m @ ws1 @ ''('' @ ws2 @ [dquote] @ p @ [dquote] \<and>
        m \<noteq> [] \<and> (\<forall>c \<in> set m. is_upper c) \<and> (\<forall>c \<in> set ws1. is_space c) \<and>
        (\<forall>c \<in> set ws2. is_space c) \<and> p \<noteq> [] \<and> dquote \<notin> set p)"




subsection \<open>Example repositories\<close>

text \<open>A small repository, for the examples.\<close>

definition example_content :: string where
  "example_content =
     ''package main'' @ [newline] @
     ''func routes() {'' @ [newline] @
     [CHR 0x09] @ ''api.GET(\"/a\", list)'' @ [newline] @
     [CHR 0x09] @ ''api.PUT(\"/b\", put)'' @ [newline] @
     [CHR 0x09] @ ''api.GET (\"/a\", again)'' @ [newline] @
     ''}''"

definition example_fs :: filesystem where
  "example_fs =
     \<lparr>repo_root = [''repo''],
      entries =
        [([''repo'', ''cmd'', ''sdsm'', ''main.go''], File (Some example_content)),
         ([''repo'', ''ui''], Directory),
         ([''repo'', ''ui'', ''app.js''], File (Some ''fetch(\"/api/a\")'')),
         ([''repo'', ''ui'', ''blob.js''], File None),
         ([''repo'', ''ui'', ''logo.png''], File (Some ''/api/b'')),
         ([''repo'', ''ui'', ''secret.key''], Unreadable),
         ([''repo'', ''ui'', ''vendor.js''], Directory),
         ([''repo'', ''ui'', ''pages''], Directory),
         ([''repo'', ''ui'', ''pages'', ''Index.HTML''], File (Some ''<a href=\"/api/a\">''))]\<rparr>"

text \<open>The same repository, its nodes listed in the reverse order.\<close>

definition example_fs_rev :: filesystem where
  "example_fs_rev = example_fs\<lparr>entries := rev (entries example_fs)\<rparr>"

definition no_routes_fs :: filesystem where
  "no_routes_fs =
     \<lparr>repo_root = [''repo''],
      entries =
        [([''repo'', ''cmd'', ''sdsm'', ''main.go''], File (Some ''package main'')),
         ([''repo'', ''ui''], Directory),
         ([''repo'', ''ui'', ''app.js''], File (Some ''fetch(\"/api/a\")''))]\<rparr>"

definition bare_fs :: filesystem where
  "bare_fs =
     \<lparr>repo_root = [''repo''],
      entries = [([''repo'', ''cmd'', ''sdsm'', ''main.go''], File (Some ''api.GET(\"x\", h)''))]\<rparr>"



definition options_fs :: filesystem where
  "options_fs =
     \<lparr>repo_root = [''repo''],
      entries =
        [([''repo'', ''cmd'', ''sdsm'', ''main.go''],
            File (Some (''api.GET(\"/a\", h)'' @ [newline] @ ''api.OPTIONS(\"/b\", h)'')))]\<rparr>"

definition restart_fs :: filesystem where
  "restart_fs =
     \<lparr>repo_root = [''repo''],
      entries =
        [([''repo'', ''cmd'', ''sdsm'', ''main.go''],
            File (Some ''api.POST(\"/servers/:id/restart\", restart)'')),
         ([''repo'', ''ui''], Directory),
         ([''repo'', ''ui'', ''app.js''], File (Some ''fetch(\"/api/servers/42/restart\")''))]\<rparr>"

text \<open>
  A repository with a file that is listed and cannot be opened, and two with a file of
  that kind and a dangling link, listed in the two orders.
\<close>

definition locked_fs :: filesystem where
  "locked_fs =
     \<lparr>repo_root = [''repo''],
      entries =
        [([''repo'', ''cmd'', ''sdsm'', ''main.go''], File (Some ''api.GET(\"/a\", list)'')),
         ([''repo'', ''ui''], Directory),
         ([''repo'', ''ui'', ''app.js''], Unreadable)]\<rparr>"

definition broken_fs :: filesystem where
  "broken_fs = locked_fs\<lparr>entries := entries locked_fs @ [([''repo'', ''ui'', ''old.js''], Dangling)]\<rparr>"

definition broken_fs_rev :: filesystem where
  "broken_fs_rev = broken_fs\<lparr>entries := rev (entries broken_fs)\<rparr>"



text \<open>
  A source file in which a comment opens a declaration and does not close its string: the
  text of the comment, and the declaration on the next line.
\<close>

definition swallow_content :: string where
  "swallow_content = ''// see api.GET(\"'' @ [newline] @ ''api.POST(\"/real\", h)''"

definition swallow_fs :: filesystem where
  "swallow_fs =
     \<lparr>repo_root = [''repo''],
      entries = [([''repo'', ''cmd'', ''sdsm'', ''main.go''], File (Some swallow_content))]\<rparr>"

definition example_endpoints :: "endpoint list" where
  "example_endpoints =
     [\<lparr>method' = ''GET'', path = ''/a'', line = 3,
       regex = Some (map (\<lambda>c. Rep (Lit c) Once) ''/api/a''), used = False, matches = []\<rparr>,
      \<lparr>method' = ''PUT'', path = ''/b'', line = 4,
       regex = Some (map (\<lambda>c. Rep (Lit c) Once) ''/api/b''), used = False, matches = []\<rparr>]"

subsection \<open>The tokens of a path\<close>

text \<open>
  The path of an endpoint read as a list of tokens: a parameter segment as
  \<open>PARAM_RE\<close> would find it in the path itself (backslash, colon, name), a character
  that \<open>re.escape\<close> escapes, or any other character. \<open>render_sub\<close> is the text of a
  token after \<open>re.escape\<close> and \<open>PARAM_RE.sub\<close>, \<open>render_pat\<close> its text in the
  final pattern, \<open>tok_items\<close> what \<open>re.compile\<close> makes of that text.
\<close>

datatype tok = TRaw char | TEsc char | TParam

function toks :: "string \<Rightarrow> tok list" where
  "toks [] = []"
| "toks (c # cs) =
     (case match_param (c # cs) of
        Some r \<Rightarrow> TParam # toks r
      | None \<Rightarrow> (if is_special c then TEsc c else TRaw c) # toks cs)"
  by pat_completeness auto
termination
  by (relation "measure length") (auto dest: match_param_shorter)

fun render_sub :: "tok \<Rightarrow> string" where
  "render_sub (TRaw c) = [c]"
| "render_sub (TEsc c) = [bslash, c]"
| "render_sub TParam = bslash # ''[^/]+''"

fun render_pat :: "tok \<Rightarrow> string" where
  "render_pat (TRaw c) = [c]"
| "render_pat (TEsc c) =
     (if c = CHR ''*'' then [CHR ''['', CHR ''^'', bslash, CHR ''s'', CHR '']'', CHR ''*'']
      else [bslash, c])"
| "render_pat TParam = bslash # ''[^/]+''"

fun tok_items :: "tok \<Rightarrow> pattern" where
  "tok_items (TRaw c) = [Rep (Lit c) Once]"
| "tok_items (TEsc c) = (if c = CHR ''*'' then [Rep NotSpace Star] else [Rep (Lit c) Once])"
| "tok_items TParam =
     [Rep (Lit (CHR ''['')) Once, Bol, Rep (Lit (CHR ''/'')) Once, Rep (Lit (CHR '']'')) Plus]"

fun tok_ok :: "tok \<Rightarrow> bool" where
  "tok_ok (TRaw c) = (\<not> is_special c)"
| "tok_ok (TEsc c) = is_special c"
| "tok_ok TParam = True"

text \<open>A text that does not start with a repetition character.\<close>

definition starts_ok :: "string \<Rightarrow> bool" where
  "starts_ok s = (case s of [] \<Rightarrow> True | x # r \<Rightarrow> x \<noteq> CHR ''*'' \<and> x \<noteq> CHR ''+'')"

text \<open>An endpoint with the pattern that \<open>build_regex\<close> compiles for it.\<close>

definition compiled :: "endpoint \<Rightarrow> endpoint" where
  "compiled ep = ep\<lparr>regex := Some (concat (map tok_items (toks (full_path ep))))\<rparr>"

text \<open>The pattern that matches a text letter by letter.\<close>

definition literal :: "string \<Rightarrow> pattern" where
  "literal p = map (\<lambda>c. Rep (Lit c) Once) p"

text \<open>
  \<open>blocked its b\<close>: on every way through the items the anchor \<open>^\<close> comes after an
  item that takes a character, or \<open>b\<close> says that the text does not start at the start
  of the searched text. Such a pattern matches nothing.
\<close>

fun blocked :: "pattern \<Rightarrow> bool \<Rightarrow> bool" where
  "blocked [] b = False"
| "blocked (Bol # its) b = (\<not> b \<or> blocked its b)"
| "blocked (Rep k Star # its) b = blocked its b"
| "blocked (Rep k r # its) b = blocked its False"

subsection \<open>The report\<close>

text \<open>What the report shows of an endpoint.\<close>

definition shown :: "endpoint \<Rightarrow> string \<times> string \<times> nat \<times> bool" where
  "shown ep = (method' ep, path ep, line ep, used ep)"

section \<open>The scan\<close>

lemma iter_ui_files_node:
  assumes "p \<in> set (iter_ui_files fs)"
  shows "prefix (repo_root fs) p \<and> (\<exists>n. map_of (entries fs) p = Some n \<and> n \<noteq> Directory)"
proof -
  from assms obtain base where b: "base \<in> set (UI_DIRS fs)" and
    p: "p \<in> set (rglob fs base)" and d: "\<not> is_dir fs p"
    by (auto simp: iter_ui_files_def split: if_splits)
  from p have sp: "strict_prefix base p" and m: "p \<in> fst ` set (entries fs)"
    by (auto simp: rglob_def split: if_splits)
  from b have "prefix (repo_root fs) base" by (auto simp: UI_DIRS_def)
  with sp have "prefix (repo_root fs) p" by (auto simp: strict_prefix_def elim: prefixE)
  moreover from m obtain n where "map_of (entries fs) p = Some n"
    by (metis domD dom_map_of_conv_image_fst)
  with d have "map_of (entries fs) p = Some n \<and> n \<noteq> Directory"
    by (auto simp: is_dir_def)
  ultimately show ?thesis by blast
qed

lemma scan_files_result:
  assumes "\<forall>p \<in> set files. prefix (repo_root fs) p"
  shows "scan_files fs files eps =
     (case first_error fs files of
        Some e \<Rightarrow> Inl e
      | None \<Rightarrow>
          Inr (foldl (\<lambda>eps (rel, text). map (scan_endpoint rel text) eps) eps
            (List.map_filter (\<lambda>p. case read_text fs p of
                                  Inl e \<Rightarrow> None
                                | Inr text \<Rightarrow> Some (drop (length (repo_root fs)) p, text)) files)))"
  using assms
proof (induction files arbitrary: eps)
  case Nil
  then show ?case by (simp add: map_filter_simps)
next
  case (Cons p files)
  then have pr: "prefix (repo_root fs) p" and
    ih: "\<And>eps. scan_files fs files eps =
     (case first_error fs files of
        Some e \<Rightarrow> Inl e
      | None \<Rightarrow>
          Inr (foldl (\<lambda>eps (rel, text). map (scan_endpoint rel text) eps) eps
            (List.map_filter (\<lambda>p. case read_text fs p of
                                  Inl e \<Rightarrow> None
                                | Inr text \<Rightarrow> Some (drop (length (repo_root fs)) p, text)) files)))"
    by simp_all
  show ?case
  proof (cases "read_text fs p")
    case (Inl e)
    then show ?thesis
      by (cases "e = UnicodeDecodeError") (simp_all add: ih map_filter_simps split: option.splits)
  next
    case (Inr t)
    with pr show ?thesis
      by (simp add: ih map_filter_simps relative_to_def split: option.splits)
  qed
qed

lemma scan_usage_fold:
  "scan_usage fs eps =
     (case scan_error fs of
        Some e \<Rightarrow> Inl e
      | None \<Rightarrow>
          Inr (foldl (\<lambda>eps (rel, text). map (scan_endpoint rel text) eps) eps (scanned_files fs)))"
  unfolding scan_usage_def scanned_files_def scan_error_def
  by (rule scan_files_result) (blast dest: iter_ui_files_node)

lemma first_error_None:
  "first_error fs ps = None \<longleftrightarrow>
     (\<forall>p \<in> set ps. \<forall>e. read_text fs p = Inl e \<longrightarrow> e = UnicodeDecodeError)"
  by (induction ps) (auto split: sum.splits)

lemma first_error_Some:
  "first_error fs ps = Some e \<Longrightarrow>
     e \<noteq> UnicodeDecodeError \<and> (\<exists>p \<in> set ps. read_text fs p = Inl e)"
  by (induction ps) (auto split: sum.splits if_splits)

lemma scan_error_None:
  "scan_error fs = None \<longleftrightarrow>
     (\<forall>p \<in> set (iter_ui_files fs). \<exists>c. map_of (entries fs) p = Some (File c))"
proof -
  have "(\<forall>e. read_text fs p = Inl e \<longrightarrow> e = UnicodeDecodeError)
          \<longleftrightarrow> (\<exists>c. map_of (entries fs) p = Some (File c))"
    if "p \<in> set (iter_ui_files fs)" for p
  proof -
    from iter_ui_files_node [OF that] obtain n where
      "map_of (entries fs) p = Some n" "n \<noteq> Directory" by blast
    then show ?thesis by (cases n) (auto simp: read_text_def split: option.splits)
  qed
  then show ?thesis unfolding scan_error_def first_error_None by blast
qed

lemma scan_error_Some:
  assumes "scan_error fs = Some e"
  shows "\<exists>p \<in> set (iter_ui_files fs).
           (map_of (entries fs) p = Some Unreadable \<and> e = PermissionError) \<or>
           (map_of (entries fs) p = Some Dangling \<and> e = FileNotFoundError)"
proof -
  from first_error_Some [OF assms [unfolded scan_error_def]] obtain p where
    p: "p \<in> set (iter_ui_files fs)" and r: "read_text fs p = Inl e" and
    e: "e \<noteq> UnicodeDecodeError" by blast
  from iter_ui_files_node [OF p] obtain n where
    "map_of (entries fs) p = Some n" "n \<noteq> Directory" by blast
  with r e have "(map_of (entries fs) p = Some Unreadable \<and> e = PermissionError) \<or>
           (map_of (entries fs) p = Some Dangling \<and> e = FileNotFoundError)"
    by (cases n) (auto simp: read_text_def split: option.splits)
  with p show ?thesis by blast
qed

lemma foldl_map_scan:
  "foldl (\<lambda>eps (rel, text). map (scan_endpoint rel text) eps) eps files =
   map (\<lambda>ep. foldl (\<lambda>ep (rel, text). scan_endpoint rel text ep) ep files) eps"
  by (induction files arbitrary: eps) (auto simp: comp_def split: prod.splits)

lemma fold_used: "used ep \<Longrightarrow> foldl (\<lambda>ep (rel, text). scan_endpoint rel text ep) ep files = ep"
  by (induction files) (auto simp: scan_endpoint_def)

lemma fold_scan_one:
  "foldl (\<lambda>ep (rel, text). scan_endpoint rel text ep) ep files = scan_one files ep"
proof (induction files)
  case Nil
  then show ?case by (simp add: scan_one_def)
next
  case (Cons f files)
  obtain rel t where f: "f = (rel, t)" by (cases f)
  consider (a) "used ep" | (b) "\<not> used ep" "pattern_found ep t"
    | (c) "\<not> used ep" "\<not> pattern_found ep t" by blast
  then show ?case
  proof cases
    case a
    then have "scan_endpoint rel t ep = ep" by (simp add: scan_endpoint_def)
    with a show ?thesis by (simp add: f fold_used scan_one_def)
  next
    case b
    define ep' where "ep' = ep\<lparr>used := True, matches := matches ep @ [rel]\<rparr>"
    have s: "scan_endpoint rel t ep = ep'"
      using b by (simp add: scan_endpoint_def pattern_found_def ep'_def)
    have "used ep'" by (simp add: ep'_def)
    then have "foldl (\<lambda>ep (rel, text). scan_endpoint rel text ep) ep' files = ep'"
      by (rule fold_used)
    with s b show ?thesis by (simp add: f scan_one_def ep'_def)
  next
    case c
    then have "scan_endpoint rel t ep = ep" by (simp add: scan_endpoint_def pattern_found_def)
    with Cons c show ?thesis by (simp add: f scan_one_def)
  qed
qed

lemma scan_usage_result:
  "scan_usage fs eps =
     (case scan_error fs of
        Some e \<Rightarrow> Inl e
      | None \<Rightarrow> Inr (map (scan_one (scanned_files fs)) eps))"
  by (simp add: scan_usage_fold foldl_map_scan fold_scan_one split: option.splits)

lemma iter_ui_files_iff:
  "p \<in> set (iter_ui_files fs) \<longleftrightarrow>
     (\<exists>base n. base \<in> set (UI_DIRS fs) \<and> is_dir fs base \<and> strict_prefix base p \<and>
        map_of (entries fs) p = Some n \<and> n \<noteq> Directory \<and>
        str_lower (path_suffix p) \<in> TEXT_EXTENSIONS)"
proof
  assume p: "p \<in> set (iter_ui_files fs)"
  then obtain base where b: "base \<in> set (UI_DIRS fs)" and
    r: "p \<in> set (rglob fs base)" and d: "\<not> is_dir fs p" and
    x: "str_lower (path_suffix p) \<in> TEXT_EXTENSIONS"
    by (auto simp: iter_ui_files_def split: if_splits)
  from r have "is_dir fs base" "strict_prefix base p"
    by (auto simp: rglob_def split: if_splits)
  moreover from iter_ui_files_node [OF p] obtain n where
    "map_of (entries fs) p = Some n" "n \<noteq> Directory"
    by blast
  ultimately show "\<exists>base n. base \<in> set (UI_DIRS fs) \<and> is_dir fs base \<and> strict_prefix base p \<and>
        map_of (entries fs) p = Some n \<and> n \<noteq> Directory \<and>
        str_lower (path_suffix p) \<in> TEXT_EXTENSIONS"
    using b x by blast
next
  assume "\<exists>base n. base \<in> set (UI_DIRS fs) \<and> is_dir fs base \<and> strict_prefix base p \<and>
        map_of (entries fs) p = Some n \<and> n \<noteq> Directory \<and>
        str_lower (path_suffix p) \<in> TEXT_EXTENSIONS"
  then obtain base n where b: "base \<in> set (UI_DIRS fs)" and db: "is_dir fs base" and
    sp: "strict_prefix base p" and m: "map_of (entries fs) p = Some n" and
    nd: "n \<noteq> Directory" and x: "str_lower (path_suffix p) \<in> TEXT_EXTENSIONS"
    by blast
  from m have "p \<in> fst ` set (entries fs)" by (metis map_of_SomeD fst_conv image_eqI)
  with db sp have "p \<in> set (rglob fs base)" by (simp add: rglob_def)
  moreover from m nd have "\<not> is_dir fs p" by (simp add: is_dir_def)
  moreover from db have "path_exists fs base" by (simp add: is_dir_def path_exists_def)
  ultimately show "p \<in> set (iter_ui_files fs)"
    using b x by (auto simp: iter_ui_files_def)
qed

lemma set_map_filter_iff:
  "y \<in> set (List.map_filter f xs) \<longleftrightarrow> (\<exists>x \<in> set xs. f x = Some y)"
  by (induction xs) (auto split: option.splits)

lemma read_text_Inr_iff:
  "read_text fs p = Inr t \<longleftrightarrow> map_of (entries fs) p = Some (File (Some t))"
  by (auto simp: read_text_def split: option.splits node.splits)

lemma scanned_files_iff:
  "(rel, t) \<in> set (scanned_files fs) \<longleftrightarrow>
     (\<exists>base p. base \<in> set (UI_DIRS fs) \<and> is_dir fs base \<and> strict_prefix base p \<and>
        map_of (entries fs) p = Some (File (Some t)) \<and>
        str_lower (path_suffix p) \<in> TEXT_EXTENSIONS \<and>
        rel = drop (length (repo_root fs)) p)"
  (is "?L \<longleftrightarrow> ?R")
proof -
  have conv: "(case read_text fs p of Inl e \<Rightarrow> None
            | Inr text \<Rightarrow> Some (drop (length (repo_root fs)) p, text)) = Some (rel, t)
          \<longleftrightarrow> read_text fs p = Inr t \<and> rel = drop (length (repo_root fs)) p" for p
    by (cases "read_text fs p") auto
  have l: "?L \<longleftrightarrow>
    (\<exists>p. p \<in> set (iter_ui_files fs) \<and> map_of (entries fs) p = Some (File (Some t)) \<and>
         rel = drop (length (repo_root fs)) p)"
    by (simp add: scanned_files_def set_map_filter_iff conv read_text_Inr_iff Bex_def)
  show ?thesis
  proof
    assume ?L
    with l obtain p where p: "p \<in> set (iter_ui_files fs)"
      and m: "map_of (entries fs) p = Some (File (Some t))"
      and r: "rel = drop (length (repo_root fs)) p" by blast
    from p obtain base where "base \<in> set (UI_DIRS fs)" "is_dir fs base"
      "strict_prefix base p" "str_lower (path_suffix p) \<in> TEXT_EXTENSIONS"
      unfolding iter_ui_files_iff by blast
    with m r show ?R by blast
  next
    assume ?R
    then obtain base p where b: "base \<in> set (UI_DIRS fs)" "is_dir fs base"
      "strict_prefix base p" "str_lower (path_suffix p) \<in> TEXT_EXTENSIONS"
      and m: "map_of (entries fs) p = Some (File (Some t))"
      and r: "rel = drop (length (repo_root fs)) p" by blast
    have "File (Some t) \<noteq> Directory" by simp
    with b m have "p \<in> set (iter_ui_files fs)" unfolding iter_ui_files_iff by blast
    with m r l show ?L by blast
  qed
qed

lemma find_Some_member: "find P xs = Some x \<Longrightarrow> x \<in> set xs \<and> P x"
  by (induction xs) (auto split: if_splits)

lemma used_scan_one:
  "used (scan_one files ep) = (used ep \<or> (\<exists>(rel, t) \<in> set files. pattern_found ep t))"
proof (cases "find (\<lambda>(rel, text). pattern_found ep text) files")
  case None
  then have "\<not> (\<exists>(rel, t) \<in> set files. pattern_found ep t)"
    by (auto simp: find_None_iff)
  with None show ?thesis by (simp add: scan_one_def)
next
  case (Some x)
  from find_Some_member [OF this]
  have "x \<in> set files" "case x of (rel, t) \<Rightarrow> pattern_found ep t"
    by simp_all
  then have "\<exists>(rel, t) \<in> set files. pattern_found ep t" by blast
  with Some show ?thesis by (auto simp: scan_one_def split: prod.splits)
qed

lemma scan_one_fields [simp]:
  "method' (scan_one files ep) = method' ep" "path (scan_one files ep) = path ep"
  "line (scan_one files ep) = line ep" "regex (scan_one files ep) = regex ep"
  by (auto simp: scan_one_def split: option.splits)

section \<open>The extraction\<close>

lemma dedup_firsts:
  "dedup eps acc =
     acc @ map (\<lambda>e. (route_key e, e)) (filter (\<lambda>e. route_key e \<notin> fst ` set acc) (firsts eps))"
proof (induction eps arbitrary: acc)
  case Nil
  then show ?case by simp
next
  case (Cons e es)
  show ?case
  proof (cases "route_key e \<in> fst ` set acc")
    case True
    have "filter (\<lambda>x. route_key x \<notin> fst ` set acc) (filter (\<lambda>x. route_key x \<noteq> route_key e) (firsts es))
      = filter (\<lambda>x. route_key x \<notin> fst ` set acc) (firsts es)"
      unfolding filter_filter by (rule filter_cong [OF refl]) (use True in force)
    with True Cons [of acc] show ?thesis by (simp add: route_key_def Let_def)
  next
    case False
    have "filter (\<lambda>x. route_key x \<notin> fst ` set (acc @ [(route_key e, e)])) (firsts es)
      = filter (\<lambda>x. route_key x \<notin> fst ` set acc) (filter (\<lambda>x. route_key x \<noteq> route_key e) (firsts es))"
      unfolding filter_filter by (rule filter_cong [OF refl]) force
    with False Cons [of "acc @ [(route_key e, e)]"] show ?thesis
      by (simp add: route_key_def Let_def)
  qed
qed

lemma dedup_values: "map snd (dedup eps []) = firsts eps"
  by (simp add: dedup_firsts comp_def)

lemma set_firsts: "set (firsts eps) \<subseteq> set eps"
  by (induction eps) auto

lemma keys_firsts: "route_key ` set (firsts eps) = route_key ` set eps"
proof (induction eps)
  case Nil
  then show ?case by simp
next
  case (Cons e es)
  have "route_key ` {x \<in> set (firsts es). route_key x \<noteq> route_key e}
      = route_key ` set (firsts es) - {route_key e}"
    by auto
  with Cons show ?case by auto
qed

lemma distinct_firsts: "distinct (map route_key (firsts eps))"
proof (induction eps)
  case Nil
  then show ?case by simp
next
  case (Cons e es)
  then have "distinct (map route_key (filter (\<lambda>x. route_key x \<noteq> route_key e) (firsts es)))"
    by (simp add: distinct_map_filter)
  then show ?case by auto
qed

lemma firsts_find:
  "ep \<in> set (firsts eps) \<Longrightarrow> find (\<lambda>e. route_key e = route_key ep) eps = Some ep"
  by (induction eps) auto

lemma compile_all_fields:
  "compile_all eps = Inr eps' \<Longrightarrow>
     list_all2 (\<lambda>a b. \<exists>r. build_regex a = Inr r \<and> b = a\<lparr>regex := Some r\<rparr>) eps eps'"
  by (induction eps arbitrary: eps') (auto split: sum.splits)


lemma compile_all_member:
  "compile_all eps = Inr eps' \<Longrightarrow> ep \<in> set eps' \<Longrightarrow>
     \<exists>a r. a \<in> set eps \<and> build_regex a = Inr r \<and> ep = a\<lparr>regex := Some r\<rparr>"
  by (induction eps arbitrary: eps') (fastforce split: sum.splits)+

lemma parse_endpoints_Inr:
  assumes "parse_endpoints fs = Inr eps"
  obtains content where "read_text fs (MAIN_FILE fs) = Inr content"
    and "compile_all (firsts (map (new_endpoint content) (finditer_route 0 content))) = Inr eps"
  using assms
  by (auto simp: parse_endpoints_def Let_def dedup_values split: if_splits sum.splits)

lemma parse_endpoints_fresh:
  assumes "parse_endpoints fs = Inr eps" and "ep \<in> set eps"
  shows "\<not> used ep \<and> matches ep = []"
proof -
  from assms(1) obtain content where
    c: "compile_all (firsts (map (new_endpoint content) (finditer_route 0 content))) = Inr eps"
    by (rule parse_endpoints_Inr)
  from compile_all_member [OF c assms(2)] obtain a r where
    a: "a \<in> set (firsts (map (new_endpoint content) (finditer_route 0 content)))" and
    e: "ep = a\<lparr>regex := Some r\<rparr>"
    by blast
  from a set_firsts have "a \<in> set (map (new_endpoint content) (finditer_route 0 content))"
    by blast
  then have "\<not> used a \<and> matches a = []"
    by (auto simp: new_endpoint_def)
  with e show ?thesis by simp
qed

lemma match_route_shape:
  assumes "match_route s = Some (m, p, r)"
  shows "\<exists>ws1 ws2. s = ''api.'' @ m @ ws1 @ ''('' @ ws2 @ dquote # p @ dquote # r \<and>
           m \<noteq> [] \<and> (\<forall>c \<in> set m. is_upper c) \<and> (\<forall>c \<in> set ws1. is_space c) \<and>
           (\<forall>c \<in> set ws2. is_space c) \<and> p \<noteq> [] \<and> dquote \<notin> set p"
proof -
  define s1 where "s1 = drop 4 s"
  define s2 where "s2 = dropWhile is_upper s1"
  from assms have pre: "prefix ''api.'' s" by (auto simp: match_route_def split: if_splits)
  then have s: "s = ''api.'' @ s1" by (auto simp: s1_def elim!: prefixE)
  from assms pre obtain s3 s4 e where
    m: "m = takeWhile is_upper s1" "m \<noteq> []" and
    a: "dropWhile is_space s2 = CHR ''('' # s3" and
    b: "dropWhile is_space s3 = dquote # s4" and
    p: "p = takeWhile (\<lambda>x. x \<noteq> dquote) s4" "p \<noteq> []" and
    c0: "dropWhile (\<lambda>x. x \<noteq> dquote) s4 = e # r"
    unfolding match_route_def Let_def s1_def [symmetric] s2_def [symmetric]
    by (auto split: if_splits list.splits)
  from hd_dropWhile [of "\<lambda>x. x \<noteq> dquote" s4] c0 have "e = dquote" by simp
  with c0 have c: "dropWhile (\<lambda>x. x \<noteq> dquote) s4 = dquote # r" by simp
  have "s1 = m @ s2" by (simp add: m s2_def)
  moreover have "s2 = takeWhile is_space s2 @ CHR ''('' # s3"
    using a takeWhile_dropWhile_id [of is_space s2] by simp
  moreover have "s3 = takeWhile is_space s3 @ dquote # s4"
    using b takeWhile_dropWhile_id [of is_space s3] by simp
  moreover have "s4 = p @ dquote # r"
    using c takeWhile_dropWhile_id [of "\<lambda>x. x \<noteq> dquote" s4] by (simp add: p)
  ultimately have "s = ''api.'' @ m @ takeWhile is_space s2 @ ''('' @ takeWhile is_space s3 @ dquote # p @ dquote # r"
    using s by simp
  moreover have "\<forall>c \<in> set m. is_upper c" "\<forall>c \<in> set (takeWhile is_space s2). is_space c"
    "\<forall>c \<in> set (takeWhile is_space s3). is_space c" "dquote \<notin> set p"
    by (auto simp: m p dest: set_takeWhileD)
  ultimately show ?thesis using m(2) p(2) by blast
qed

lemma finditer_route_sound:
  assumes "(st, m, p) \<in> set (finditer_route pos s)"
  shows "pos \<le> st \<and> (\<exists>r. match_route (drop (st - pos) s) = Some (m, p, r))"
  using assms
proof (induction pos s rule: finditer_route.induct)
  case (1 pos)
  then show ?case by simp
next
  case (2 pos c cs)
  show ?case
  proof (cases "match_route (c # cs)")
    case None
    with 2 have "Suc pos \<le> st \<and> (\<exists>r. match_route (drop (st - Suc pos) cs) = Some (m, p, r))"
      by simp
    moreover from this have "st - pos = Suc (st - Suc pos)" by arith
    then have "drop (st - pos) (c # cs) = drop (st - Suc pos) cs" by simp
    ultimately show ?thesis by auto
  next
    case (Some x)
    then obtain m0 p0 r0 where x: "match_route (c # cs) = Some (m0, p0, r0)"
      by (cases x) auto
    from match_route_shape [OF x] obtain ws1 ws2 where
      "c # cs = ''api.'' @ m0 @ ws1 @ ''('' @ ws2 @ dquote # p0 @ dquote # r0" by blast
    then have "c # cs = (''api.'' @ m0 @ ws1 @ ''('' @ ws2 @ dquote # p0 @ [dquote]) @ r0"
      by simp
    then obtain pre where pre: "c # cs = pre @ r0" ..
    have len: "length (c # cs) - length r0 = length pre" unfolding pre by simp
    from 2(3) x consider "(st, m, p) = (pos, m0, p0)"
      | "(st, m, p) \<in> set (finditer_route (pos + (length (c # cs) - length r0)) r0)"
      by auto
    then show ?thesis
    proof cases
      case 1
      with x show ?thesis by simp
    next
      case 2
      with "2.IH"(2) [OF x refl refl 2] have
        ih: "pos + length pre \<le> st \<and> (\<exists>r. match_route (drop (st - (pos + length pre)) r0) = Some (m, p, r))"
        unfolding len by simp
      from ih have "length pre \<le> st - pos" "st - pos - length pre = st - (pos + length pre)"
        by arith+
      then have "drop (st - pos) (c # cs) = drop (st - (pos + length pre)) r0"
        unfolding pre by simp
      with ih show ?thesis by auto
    qed
  qed
qed

lemma parse_endpoints_match:
  assumes "parse_endpoints fs = Inr eps" and "ep \<in> set eps"
  shows "\<exists>content st r. read_text fs (MAIN_FILE fs) = Inr content \<and>
           match_route (drop st content) = Some (method' ep, path ep, r)"
proof -
  from assms(1) obtain content where c: "read_text fs (MAIN_FILE fs) = Inr content" and
    e: "compile_all (firsts (map (new_endpoint content) (finditer_route 0 content))) = Inr eps"
    by (rule parse_endpoints_Inr)
  from compile_all_member [OF e assms(2)] obtain a r where
    a: "a \<in> set (firsts (map (new_endpoint content) (finditer_route 0 content)))" and
    ep: "ep = a\<lparr>regex := Some r\<rparr>" by blast
  from a set_firsts have "a \<in> set (map (new_endpoint content) (finditer_route 0 content))"
    by blast
  then obtain mt where mt: "mt \<in> set (finditer_route 0 content)"
    and a': "a = new_endpoint content mt" by auto
  obtain st m p where "mt = (st, m, p)" by (cases mt)
  with mt a' ep finditer_route_sound [of st m p 0 content]
  have "\<exists>r. match_route (drop st content) = Some (method' ep, path ep, r)"
    by (simp add: new_endpoint_def)
  with c show ?thesis by blast
qed

lemma upper_not_space: "is_upper c \<Longrightarrow> \<not> is_space c"
  by (auto simp: is_upper_def is_space_def Let_def)

lemma paren_simps [simp]: "\<not> is_upper (CHR ''('')" "\<not> is_space (CHR ''('')"
  "\<not> is_space dquote"
  by (simp_all add: is_upper_def is_space_def)

lemma takeWhile_run:
  "(\<forall>x \<in> set xs. P x) \<Longrightarrow> \<not> P y \<Longrightarrow> takeWhile P (xs @ y # ys) = xs"
  by (induction xs) auto

lemma dropWhile_run:
  "(\<forall>x \<in> set xs. P x) \<Longrightarrow> \<not> P y \<Longrightarrow> dropWhile P (xs @ y # ys) = y # ys"
  by (induction xs) auto

lemma match_route_complete:
  assumes "m \<noteq> []" "\<forall>c \<in> set m. is_upper c" "\<forall>c \<in> set ws1. is_space c"
    "\<forall>c \<in> set ws2. is_space c" "p \<noteq> []" "dquote \<notin> set p"
  shows "match_route (''api.'' @ m @ ws1 @ ''('' @ ws2 @ dquote # p @ dquote # r) = Some (m, p, r)"
proof -
  let ?t = "ws1 @ CHR ''('' # ws2 @ dquote # p @ dquote # r"
  obtain y ys where t: "?t = y # ys" by (cases ?t) auto
  have ny: "\<not> is_upper y"
  proof (cases ws1)
    case Nil
    with t show ?thesis by auto
  next
    case (Cons w ws)
    with t assms(3) have "is_space y" by auto
    then show ?thesis using upper_not_space by blast
  qed
  have a: "takeWhile is_upper (m @ ?t) = m" "dropWhile is_upper (m @ ?t) = ?t"
    unfolding t using assms(2) ny by (simp_all add: takeWhile_run dropWhile_run)
  have b: "dropWhile is_space ?t = CHR ''('' # ws2 @ dquote # p @ dquote # r"
    using assms(3) by (simp add: dropWhile_run)
  have c: "dropWhile is_space (ws2 @ dquote # p @ dquote # r) = dquote # p @ dquote # r"
    using assms(4) by (simp add: dropWhile_run)
  have d: "takeWhile (\<lambda>x. x \<noteq> dquote) (p @ dquote # r) = p"
    "dropWhile (\<lambda>x. x \<noteq> dquote) (p @ dquote # r) = dquote # r"
  proof -
    from assms(6) have "\<forall>x \<in> set p. x \<noteq> dquote" by blast
    then show "takeWhile (\<lambda>x. x \<noteq> dquote) (p @ dquote # r) = p"
      "dropWhile (\<lambda>x. x \<noteq> dquote) (p @ dquote # r) = dquote # r"
      by (simp_all add: takeWhile_run dropWhile_run)
  qed
  have "match_route (''api.'' @ (m @ ?t)) = Some (m, p, r)"
    unfolding match_route_def using assms(1,5)
    by (simp add: a b c d Let_def)
  then show ?thesis by simp
qed

text \<open>
  A match at the start of a text is the decomposition of the text along the pattern,
  and the text has one such decomposition at most: the groups do not depend on the order
  in which the matcher tries the repetitions.
\<close>

lemma match_route_iff:
  "match_route s = Some (m, p, r) \<longleftrightarrow>
     (\<exists>ws1 ws2. s = ''api.'' @ m @ ws1 @ ''('' @ ws2 @ dquote # p @ dquote # r \<and>
           m \<noteq> [] \<and> (\<forall>c \<in> set m. is_upper c) \<and> (\<forall>c \<in> set ws1. is_space c) \<and>
           (\<forall>c \<in> set ws2. is_space c) \<and> p \<noteq> [] \<and> dquote \<notin> set p)"
proof
  assume "match_route s = Some (m, p, r)"
  then show "\<exists>ws1 ws2. s = ''api.'' @ m @ ws1 @ ''('' @ ws2 @ dquote # p @ dquote # r \<and>
           m \<noteq> [] \<and> (\<forall>c \<in> set m. is_upper c) \<and> (\<forall>c \<in> set ws1. is_space c) \<and>
           (\<forall>c \<in> set ws2. is_space c) \<and> p \<noteq> [] \<and> dquote \<notin> set p"
    by (rule match_route_shape)
next
  assume "\<exists>ws1 ws2. s = ''api.'' @ m @ ws1 @ ''('' @ ws2 @ dquote # p @ dquote # r \<and>
           m \<noteq> [] \<and> (\<forall>c \<in> set m. is_upper c) \<and> (\<forall>c \<in> set ws1. is_space c) \<and>
           (\<forall>c \<in> set ws2. is_space c) \<and> p \<noteq> [] \<and> dquote \<notin> set p"
  then obtain ws1 ws2 where
    "s = ''api.'' @ m @ ws1 @ ''('' @ ws2 @ dquote # p @ dquote # r"
    "m \<noteq> []" "\<forall>c \<in> set m. is_upper c" "\<forall>c \<in> set ws1. is_space c"
    "\<forall>c \<in> set ws2. is_space c" "p \<noteq> []" "dquote \<notin> set p"
    by blast
  then show "match_route s = Some (m, p, r)"
    using match_route_complete [of m ws1 ws2 p r] by simp
qed

subsection \<open>The occurrences that \<open>finditer\<close> yields\<close>

text \<open>
  An occurrence at an index is a match of \<open>ROUTE_RE\<close> at that index, and it ends where
  the match ends.
\<close>

lemma route_at_iff:
  "route_at content st m p en \<longleftrightarrow>
     (\<exists>r. match_route (drop st content) = Some (m, p, r) \<and> en = length content - length r)"
proof
  assume "route_at content st m p en"
  then obtain ws1 ws2 where se: "st \<le> en" and el: "en \<le> length content" and
    t: "take (en - st) (drop st content) =
          ''api.'' @ m @ ws1 @ ''('' @ ws2 @ [dquote] @ p @ [dquote]" and
    c: "m \<noteq> []" "\<forall>c \<in> set m. is_upper c" "\<forall>c \<in> set ws1. is_space c"
       "\<forall>c \<in> set ws2. is_space c" "p \<noteq> []" "dquote \<notin> set p"
    unfolding route_at_def by blast
  have "drop st content = take (en - st) (drop st content) @ drop (en - st) (drop st content)"
    by (rule append_take_drop_id [symmetric])
  also have "drop (en - st) (drop st content) = drop en content" using se by simp
  finally have "drop st content =
      ''api.'' @ m @ ws1 @ ''('' @ ws2 @ dquote # p @ dquote # drop en content"
    unfolding t by simp
  with match_route_complete [OF c, of "drop en content"]
  have "match_route (drop st content) = Some (m, p, drop en content)" by simp
  moreover from el have "en = length content - length (drop en content)" by simp
  ultimately show "\<exists>r. match_route (drop st content) = Some (m, p, r) \<and> en = length content - length r"
    by blast
next
  assume "\<exists>r. match_route (drop st content) = Some (m, p, r) \<and> en = length content - length r"
  then obtain r where mr: "match_route (drop st content) = Some (m, p, r)"
    and en: "en = length content - length r" by blast
  from match_route_shape [OF mr] obtain ws1 ws2 where
    d: "drop st content = ''api.'' @ m @ ws1 @ ''('' @ ws2 @ dquote # p @ dquote # r" and
    c: "m \<noteq> []" "\<forall>c \<in> set m. is_upper c" "\<forall>c \<in> set ws1. is_space c"
       "\<forall>c \<in> set ws2. is_space c" "p \<noteq> []" "dquote \<notin> set p"
    by blast
  define x where "x = ''api.'' @ m @ ws1 @ ''('' @ ws2 @ [dquote] @ p @ [dquote]"
  from d have dx: "drop st content = x @ r" by (simp add: x_def)
  then have "length (drop st content) = length (x @ r)" by (rule arg_cong)
  then have "length content - st = length x + length r"
    by (simp only: length_drop length_append)
  moreover have "0 < length x" by (simp add: x_def)
  ultimately have a: "en - st = length x \<and> st \<le> en \<and> en \<le> length content"
    unfolding en by arith
  then have "st \<le> en" "en \<le> length content" by simp_all
  moreover from a dx have "take (en - st) (drop st content) = x" by simp
  ultimately show "route_at content st m p en"
    unfolding route_at_def x_def using c by blast
qed

lemma route_at_unique:
  assumes "route_at content st m p en" and "route_at content st m' p' en'"
  shows "m' = m \<and> p' = p \<and> en' = en"
  using assms unfolding route_at_iff by auto

lemma route_at_bounds:
  assumes "route_at content st m p en"
  shows "st < en \<and> en \<le> length content"
proof -
  from assms obtain x where "st \<le> en" "en \<le> length content"
    "take (en - st) (drop st content) = ''api.'' @ x"
    unfolding route_at_def by auto
  moreover from this(3) have "en - st \<noteq> 0" by (intro notI) simp
  ultimately show ?thesis by simp
qed

lemma finditer_step_None:
  assumes "c # cs = drop pos content"
  shows "cs = drop (Suc pos) content \<and> Suc pos \<le> length content"
proof -
  from assms have "pos < length content" by (intro not_le_imp_less notI) simp
  moreover have "drop (Suc pos) content = drop 1 (drop pos content)" by simp
  ultimately show ?thesis unfolding assms [symmetric] by simp
qed

lemma finditer_step_Some:
  assumes "c # cs = drop pos content" and "match_route (c # cs) = Some (m, p, r)"
  shows "r = drop (pos + (length (c # cs) - length r)) content \<and>
         pos + (length (c # cs) - length r) \<le> length content \<and>
         route_at content pos m p (pos + (length (c # cs) - length r))"
proof -
  from assms(1) have pl: "pos < length content" by (intro not_le_imp_less notI) simp
  from match_route_shape [OF assms(2)] obtain ws1 ws2 where
    "c # cs = ''api.'' @ m @ ws1 @ ''('' @ ws2 @ dquote # p @ dquote # r" by blast
  then have "c # cs = (''api.'' @ m @ ws1 @ ''('' @ ws2 @ dquote # p @ [dquote]) @ r"
    by simp
  then obtain x where x: "c # cs = x @ r" ..
  have lc: "length (c # cs) = length content - pos" unfolding assms(1) by simp
  from x have "length (c # cs) = length (x @ r)" by (rule arg_cong)
  then have lx: "length (c # cs) = length x + length r" by (simp only: length_append)
  have "drop (pos + length x) content = drop (length x) (drop pos content)"
    by (simp add: add.commute)
  also have "\<dots> = r" unfolding assms(1) [symmetric] x by simp
  finally have r: "r = drop (pos + length x) content" ..
  from lx have e2: "pos + (length (c # cs) - length r) = pos + length x" by simp
  from lc lx pl have "length content = pos + length x + length r" by simp
  then have "length content - length r = pos + length x" by simp
  with e2 have e1: "pos + (length (c # cs) - length r) = length content - length r"
    by simp
  from assms have "match_route (drop pos content) = Some (m, p, r)" by simp
  then have "route_at content pos m p (length content - length r)"
    unfolding route_at_iff by blast
  then have g3: "route_at content pos m p (pos + (length (c # cs) - length r))"
    unfolding e1 .
  have g2: "pos + (length (c # cs) - length r) \<le> length content"
    unfolding e1 by simp
  have g1: "r = drop (pos + (length (c # cs) - length r)) content"
    unfolding e2 by (rule r)
  from g1 g2 g3 show ?thesis by (intro conjI)
qed

lemma finditer_route_found:
  assumes "s = drop pos content" and "(st, m, p) \<in> set (finditer_route pos s)"
  shows "pos \<le> st \<and> (\<exists>en. route_at content st m p en)"
  using assms
proof (induction pos s rule: finditer_route.induct)
  case (1 pos)
  then show ?case by simp
next
  case (2 pos c cs)
  show ?case
  proof (cases "match_route (c # cs)")
    case None
    from finditer_step_None [OF "2.prems"(1)] have "cs = drop (Suc pos) content" ..
    from "2.IH"(1) [OF None this] "2.prems"(2) None show ?thesis by auto
  next
    case (Some x)
    then obtain m0 p0 r0 where x: "match_route (c # cs) = Some (m0, p0, r0)"
      by (cases x) auto
    note st = finditer_step_Some [OF "2.prems"(1) x]
    from "2.prems"(2) x consider "(st, m, p) = (pos, m0, p0)"
      | "(st, m, p) \<in> set (finditer_route (pos + (length (c # cs) - length r0)) r0)"
      by auto
    then show ?thesis
    proof cases
      case 1
      with st show ?thesis by auto
    next
      case 2
      from "2.IH"(2) [OF x refl refl _ 2] st show ?thesis by auto
    qed
  qed
qed

lemma finditer_route_apart:
  assumes "s = drop pos content"
  shows "sorted_wrt (\<lambda>a b. \<exists>en. route_at content (fst a) (fst (snd a)) (snd (snd a)) en \<and> en \<le> fst b)
           (finditer_route pos s)"
  using assms
proof (induction pos s rule: finditer_route.induct)
  case (1 pos)
  then show ?case by simp
next
  case (2 pos c cs)
  show ?case
  proof (cases "match_route (c # cs)")
    case None
    from finditer_step_None [OF "2.prems"(1)] have "cs = drop (Suc pos) content" ..
    from "2.IH"(1) [OF None this] None show ?thesis by simp
  next
    case (Some x)
    then obtain m0 p0 r0 where x: "match_route (c # cs) = Some (m0, p0, r0)"
      by (cases x) auto
    note st = finditer_step_Some [OF "2.prems"(1) x]
    from st have r0: "r0 = drop (pos + (length (c # cs) - length r0)) content" ..
    have "pos + (length (c # cs) - length r0) \<le> fst b"
      if "b \<in> set (finditer_route (pos + (length (c # cs) - length r0)) r0)" for b
      using finditer_route_found [OF r0, of "fst b" "fst (snd b)" "snd (snd b)"] that by simp
    with "2.IH"(2) [OF x refl refl r0] st x show ?thesis by auto
  qed
qed

lemma finditer_route_complete:
  assumes "s = drop pos content" and "pos \<le> q" and "route_at content q m p en"
  shows "(q, m, p) \<in> set (finditer_route pos s) \<or>
         (\<exists>st m' p' en'. (st, m', p') \<in> set (finditer_route pos s) \<and>
            route_at content st m' p' en' \<and> st < q \<and> q < en')"
  using assms(1,2)
proof (induction pos s rule: finditer_route.induct)
  case (1 pos)
  from assms(3) obtain r where "match_route (drop q content) = Some (m, p, r)"
    unfolding route_at_iff by blast
  moreover from 1 have "drop q content = []" by simp
  ultimately show ?case by (simp add: match_route_def)
next
  case (2 pos c cs)
  show ?case
  proof (cases "match_route (c # cs)")
    case None
    from finditer_step_None [OF "2.prems"(1)] have cs: "cs = drop (Suc pos) content" ..
    have "q \<noteq> pos"
    proof
      assume "q = pos"
      with assms(3) "2.prems"(1) have "\<exists>r. match_route (c # cs) = Some (m, p, r)"
        unfolding route_at_iff by auto
      with None show False by simp
    qed
    with "2.prems"(2) have "Suc pos \<le> q" by simp
    from "2.IH"(1) [OF None cs this] None show ?thesis by simp
  next
    case (Some x)
    then obtain m0 p0 r0 where x: "match_route (c # cs) = Some (m0, p0, r0)"
      by (cases x) auto
    define pos' where "pos' = pos + (length (c # cs) - length r0)"
    from finditer_step_Some [OF "2.prems"(1) x] have r0: "r0 = drop pos' content"
      and h: "route_at content pos m0 p0 pos'" unfolding pos'_def by simp_all
    have l: "finditer_route pos (c # cs) = (pos, m0, p0) # finditer_route pos' r0"
      using x by (simp add: pos'_def)
    consider "q = pos" | "pos < q" "q < pos'" | "pos' \<le> q" using "2.prems"(2) by linarith
    then show ?thesis
    proof cases
      case 1
      with route_at_unique [OF h] assms(3) have "m = m0" "p = p0" by auto
      with 1 l show ?thesis by simp
    next
      case 2
      with h l show ?thesis by auto
    next
      case 3
      from "2.IH"(2) [OF x refl refl, folded pos'_def, OF r0 3] l show ?thesis by auto
    qed
  qed
qed

lemma sorted_wrt_either:
  assumes "sorted_wrt R xs" "x \<in> set xs" "y \<in> set xs" "x \<noteq> y"
  shows "R x y \<or> R y x"
proof -
  from assms(2,3) obtain i j where i: "i < length xs" "xs ! i = x" and j: "j < length xs" "xs ! j = y"
    by (auto simp: in_set_conv_nth)
  with assms(4) have "i < j \<or> j < i" by (cases i j rule: linorder_cases) auto
  with assms(1) i j show ?thesis by (auto simp: sorted_wrt_iff_nth_less)
qed

lemma finditer_route_iff:
  "(st, m, p) \<in> set (finditer_route 0 content) \<longleftrightarrow>
     (\<exists>en. route_at content st m p en) \<and>
     \<not> (\<exists>st' m' p' en'. (st', m', p') \<in> set (finditer_route 0 content) \<and>
           route_at content st' m' p' en' \<and> st' < st \<and> st < en')"
  (is "?L \<longleftrightarrow> ?A \<and> \<not> ?S")
proof (intro iffI conjI)
  assume l: ?L
  from finditer_route_found [OF _ l] show ?A by simp
  then obtain en where en: "route_at content st m p en" ..
  show "\<not> ?S"
  proof
    assume ?S
    then obtain st' m' p' en' where l': "(st', m', p') \<in> set (finditer_route 0 content)"
      and r': "route_at content st' m' p' en'" and o: "st' < st" "st < en'" by blast
    from o have "(st, m, p) \<noteq> (st', m', p')" by simp
    from sorted_wrt_either [OF finditer_route_apart [of content 0 content] l l' this]
    consider e where "route_at content st m p e" "e \<le> st'"
      | e where "route_at content st' m' p' e" "e \<le> st" by auto
    then show False
    proof cases
      case 1
      with route_at_bounds [OF 1(1)] o show False by simp
    next
      case 2
      with route_at_unique [OF r' 2(1)] o show False by simp
    qed
  qed
next
  assume "?A \<and> \<not> ?S"
  then obtain en where en: "route_at content st m p en" and s: "\<not> ?S" by blast
  from finditer_route_complete [OF _ _ en, of content 0] s show ?L by auto
qed

lemma finditer_route_sorted: "sorted_wrt (<) (map fst (finditer_route 0 content))"
proof -
  have "sorted_wrt (\<lambda>a b. fst a < fst b) (finditer_route 0 content)"
  proof (rule sorted_wrt_mono_rel [OF _ finditer_route_apart [of content 0 content]])
    fix a b
    assume "\<exists>en. route_at content (fst a) (fst (snd a)) (snd (snd a)) en \<and> en \<le> fst b"
    then obtain en where "route_at content (fst a) (fst (snd a)) (snd (snd a)) en" "en \<le> fst b"
      by blast
    with route_at_bounds [OF this(1)] show "fst a < fst b" by simp
  qed simp
  then show ?thesis by (simp add: sorted_wrt_map)
qed

section \<open>The files that are opened\<close>












section \<open>The derived pattern\<close>

lemma special_simps [simp]:
  "is_special bslash" "is_special (CHR ''*'')" "\<not> is_special (CHR '':'')"
  "is_special (CHR ''['')" "is_special (CHR ''^'')" "is_special (CHR ''+'')"
  by (simp_all add: is_special_def special_chars_def)

lemma name_simps [simp]: "\<not> is_name_char bslash" "\<not> is_name_char (CHR ''['')"
  by (simp_all add: is_name_char_def)

lemma name_not_special: "is_name_char c \<Longrightarrow> \<not> is_special c"
  by (auto simp: is_name_char_def is_special_def special_chars_def Let_def)

lemma special_not_alnum: "is_special c \<Longrightarrow> \<not> is_alnum c"
  by (auto simp: is_alnum_def dest: name_not_special)

lemma name_not_bslash: "is_name_char c \<Longrightarrow> c \<noteq> bslash"
  using name_not_special by force

lemma toks_ok: "\<forall>t \<in> set (toks s). tok_ok t"
  by (induction s rule: toks.induct) (auto split: option.splits)

lemma dropWhile_name_escape:
  "dropWhile is_name_char (re_escape s) = re_escape (dropWhile is_name_char s)"
  by (induction s) (auto simp: name_not_special name_not_bslash dest: name_not_special)

lemma match_param_escape:
  "match_param (bslash # re_escape cs) = map_option re_escape (match_param (bslash # cs))"
proof (cases cs)
  case Nil
  then show ?thesis by (simp add: match_param_def)
next
  case (Cons d ds)
  note c1 = Cons
  show ?thesis
  proof (cases ds)
    case Nil
    with c1 show ?thesis by (auto simp: match_param_def)
  next
    case (Cons e es)
    with c1 show ?thesis
      by (auto simp: match_param_def dropWhile_name_escape name_not_special name_not_bslash)
  qed
qed


lemma param_sub_escape: "param_sub ''[^/]+'' (re_escape s) = concat (map render_sub (toks s))"
proof (induction s rule: toks.induct)
  case 1
  then show ?case by simp
next
  case (2 c cs)
  show ?case
  proof (cases "match_param (c # cs)")
    case (Some r)
    then obtain n rest where c: "c = bslash" and cs: "cs = CHR '':'' # n # rest"
      and n: "is_name_char n" and r: "r = dropWhile is_name_char rest"
      by (auto simp: match_param_def split: list.splits if_splits)
    have e: "re_escape (c # cs) = bslash # bslash # re_escape cs"
      by (simp add: c)
    have m1: "match_param (bslash # bslash # re_escape cs) = None"
      by (simp add: match_param_def split: list.splits)
    have m2: "match_param (bslash # re_escape cs) = Some (re_escape r)"
      using Some by (simp add: match_param_escape c)
    from 2(2) [OF Some] have ih: "param_sub ''[^/]+'' (re_escape r) = concat (map render_sub (toks r))" .
    have "param_sub ''[^/]+'' (re_escape (c # cs)) = param_sub ''[^/]+'' (bslash # bslash # re_escape cs)"
      by (simp only: e)
    also have "\<dots> = bslash # ''[^/]+'' @ param_sub ''[^/]+'' (re_escape r)"
      by (simp add: m1 m2)
    also have "\<dots> = concat (map render_sub (toks (c # cs)))"
      using Some ih by simp
    finally show ?thesis .
  next
    case None
    note ih = 2(1) [OF None]
    show ?thesis
    proof (cases "is_special c")
      case True
      have m1: "match_param (bslash # c # re_escape cs) = None"
        using True by (auto simp: match_param_def split: list.splits)
      have m2: "match_param (c # re_escape cs) = None"
      proof (cases "c = bslash")
        case True
        with None show ?thesis by (simp add: match_param_escape)
      next
        case False
        then show ?thesis by (auto simp: match_param_def split: list.splits)
      qed
      have "param_sub ''[^/]+'' (re_escape (c # cs)) = param_sub ''[^/]+'' (bslash # c # re_escape cs)"
        using True by simp
      also have "\<dots> = bslash # c # param_sub ''[^/]+'' (re_escape cs)"
        by (simp add: m1 m2)
      also have "\<dots> = concat (map render_sub (toks (c # cs)))"
        using True None ih by simp
      finally show ?thesis .
    next
      case False
      then have "c \<noteq> bslash" by auto
      then have m: "match_param (c # re_escape cs) = None"
        by (auto simp: match_param_def split: list.splits)
      have "param_sub ''[^/]+'' (re_escape (c # cs)) = param_sub ''[^/]+'' (c # re_escape cs)"
        using False by simp
      also have "\<dots> = c # param_sub ''[^/]+'' (re_escape cs)"
        by (simp add: m)
      also have "\<dots> = concat (map render_sub (toks (c # cs)))"
        using False None ih by simp
      finally show ?thesis .
    qed
  qed
qed


lemma render_sub_starts: "\<forall>t \<in> set ts. tok_ok t \<Longrightarrow> starts_ok (concat (map render_sub ts))"
proof (cases ts)
  case Nil
  then show ?thesis by (simp add: starts_ok_def)
next
  case (Cons t ts')
  assume "\<forall>t \<in> set ts. tok_ok t"
  with Cons have "tok_ok t" by simp
  with Cons show ?thesis by (cases t) (auto simp: starts_ok_def)
qed

lemma render_pat_starts: "\<forall>t \<in> set ts. tok_ok t \<Longrightarrow> starts_ok (concat (map render_pat ts))"
proof (cases ts)
  case Nil
  then show ?thesis by (simp add: starts_ok_def)
next
  case (Cons t ts')
  assume "\<forall>t \<in> set ts. tok_ok t"
  with Cons have "tok_ok t" by simp
  with Cons show ?thesis by (cases t) (auto simp: starts_ok_def)
qed

lemma replace_keep:
  "\<not> (c = bslash \<and> (\<exists>r. cs = CHR ''*'' # r)) \<Longrightarrow>
     str_replace [bslash, CHR ''*''] new (c # cs) = c # str_replace [bslash, CHR ''*''] new cs"
  by (cases cs) auto

lemma replace_hit:
  "str_replace [bslash, CHR ''*''] new (bslash # CHR ''*'' # cs) =
     new @ str_replace [bslash, CHR ''*''] new cs"
  by simp

lemma replace_rendering:
  assumes "\<forall>t \<in> set ts. tok_ok t"
  shows "str_replace [bslash, CHR ''*''] [CHR ''['', CHR ''^'', bslash, CHR ''s'', CHR '']'', CHR ''*'']
           (concat (map render_sub ts)) = concat (map render_pat ts)"
  using assms
proof (induction ts)
  case Nil
  then show ?case by simp
next
  case (Cons t ts)
  let ?new = "[CHR ''['', CHR ''^'', bslash, CHR ''s'', CHR '']'', CHR ''*'']"
  let ?rest = "concat (map render_sub ts)"
  from Cons have ih: "str_replace [bslash, CHR ''*''] ?new ?rest = concat (map render_pat ts)"
    and ok: "tok_ok t" by simp_all
  from Cons have "starts_ok ?rest" by (simp add: render_sub_starts)
  then have st: "\<And>r. ?rest \<noteq> CHR ''*'' # r" by (auto simp: starts_ok_def)
  show ?case
  proof (cases t)
    case (TRaw c)
    with ok have "c \<noteq> bslash" by auto
    then show ?thesis using TRaw ih by (simp add: replace_keep del: str_replace.simps)
  next
    case (TEsc c)
    show ?thesis
    proof (cases "c = CHR ''*''")
      case True
      with TEsc ih show ?thesis by (simp add: replace_hit del: str_replace.simps)
    next
      case False
      with st have "\<not> (c = bslash \<and> (\<exists>r. ?rest = CHR ''*'' # r))" by blast
      with False TEsc ih show ?thesis by (simp add: replace_keep del: str_replace.simps)
    qed
  next
    case TParam
    with ih show ?thesis by (simp add: replace_keep del: str_replace.simps)
  qed
qed


lemma compile_step:
  assumes "parse_atom s = Some (it, r)" and "parse_rep it r = Some (it', r')"
  shows "re_compile s = map_option ((#) it') (re_compile r')"
proof (cases s)
  case Nil
  with assms(1) show ?thesis by (simp add: parse_atom_def)
next
  case (Cons c cs)
  with assms show ?thesis by (simp split: option.splits)
qed

lemma parse_rep_once: "starts_ok r \<Longrightarrow> parse_rep it r = Some (it, r)"
  by (auto simp: parse_rep_def starts_ok_def split: list.splits)

lemma parse_atom_raw:
  "\<not> is_special c \<Longrightarrow> parse_atom (c # r) = Some (Rep (Lit c) Once, r)"
  by (auto simp: parse_atom_def is_special_def special_chars_def)

lemma parse_atom_esc:
  "is_special c \<Longrightarrow> parse_atom (bslash # c # r) = Some (Rep (Lit c) Once, r)"
  by (simp add: parse_atom_def special_not_alnum)

lemma compile_raw:
  "\<not> is_special c \<Longrightarrow> starts_ok r \<Longrightarrow>
     re_compile (c # r) = map_option ((#) (Rep (Lit c) Once)) (re_compile r)"
  by (rule compile_step [OF parse_atom_raw parse_rep_once])

lemma compile_esc:
  "is_special c \<Longrightarrow> starts_ok r \<Longrightarrow>
     re_compile (bslash # c # r) = map_option ((#) (Rep (Lit c) Once)) (re_compile r)"
  by (rule compile_step [OF parse_atom_esc parse_rep_once])

lemma compile_wild:
  "re_compile ([CHR ''['', CHR ''^'', bslash, CHR ''s'', CHR '']'', CHR ''*''] @ r) =
     map_option ((#) (Rep NotSpace Star)) (re_compile r)"
  by (rule compile_step [where it = "Rep NotSpace Once"])
     (simp add: parse_atom_def, simp add: parse_rep_def)

lemma compile_param:
  assumes "starts_ok r"
  shows "re_compile (bslash # ''[^/]+'' @ r) =
     map_option ((@) [Rep (Lit (CHR ''['')) Once, Bol, Rep (Lit (CHR ''/'')) Once,
                      Rep (Lit (CHR '']'')) Plus]) (re_compile r)"
proof -
  have a: "re_compile (bslash # ''[^/]+'' @ r) =
      map_option ((#) (Rep (Lit (CHR ''['')) Once)) (re_compile (''^/]+'' @ r))"
    by (rule compile_step [where it = "Rep (Lit (CHR ''['')) Once"])
       (simp add: parse_atom_def is_alnum_def, simp add: parse_rep_def)
  have b: "re_compile (''^/]+'' @ r) = map_option ((#) Bol) (re_compile (''/]+'' @ r))"
    by (rule compile_step [where it = Bol]) (simp add: parse_atom_def, simp add: parse_rep_def)
  have c: "re_compile (''/]+'' @ r) =
      map_option ((#) (Rep (Lit (CHR ''/'')) Once)) (re_compile ('']+'' @ r))"
    by (rule compile_step [where it = "Rep (Lit (CHR ''/'')) Once"])
       (simp add: parse_atom_def, simp add: parse_rep_def)
  have d: "re_compile ('']+'' @ r) = map_option ((#) (Rep (Lit (CHR '']'')) Plus)) (re_compile r)"
    by (rule compile_step [where it = "Rep (Lit (CHR '']'')) Once"])
       (simp add: parse_atom_def, simp add: parse_rep_def)
  show ?thesis
    unfolding a b c d by (cases "re_compile r") simp_all
qed

lemma compile_rendering:
  assumes "\<forall>t \<in> set ts. tok_ok t"
  shows "re_compile (concat (map render_pat ts)) = Some (concat (map tok_items ts))"
  using assms
proof (induction ts)
  case Nil
  then show ?case by simp
next
  case (Cons t ts)
  then have ih: "re_compile (concat (map render_pat ts)) = Some (concat (map tok_items ts))"
    and ok: "tok_ok t" and st: "starts_ok (concat (map render_pat ts))"
    by (simp_all add: render_pat_starts)
  show ?case
  proof (cases t)
    case (TRaw c)
    with ok st ih show ?thesis by (simp add: compile_raw del: re_compile.simps)
  next
    case (TEsc c)
    show ?thesis
    proof (cases "c = CHR ''*''")
      case True
      with TEsc ih compile_wild [of "concat (map render_pat ts)"] show ?thesis
        by (simp del: re_compile.simps)
    next
      case False
      with TEsc ok st ih show ?thesis by (simp add: compile_esc del: re_compile.simps)
    qed
  next
    case TParam
    with st ih compile_param [of "concat (map render_pat ts)"] show ?thesis
      by (simp del: re_compile.simps)
  qed
qed

lemma build_regex_tokens:
  "build_regex ep = Inr (concat (map tok_items (toks (full_path ep))))"
  by (simp add: build_regex_def param_sub_escape replace_rendering compile_rendering toks_ok
           del: str_replace.simps re_compile.simps)

lemma compile_all_total: "compile_all eps = Inr (map compiled eps)"
  by (induction eps) (simp_all add: build_regex_tokens compiled_def)

lemma read_text_exists: "read_text fs p = Inr t \<Longrightarrow> path_exists fs p"
  by (auto simp: read_text_def path_exists_def split: option.splits node.splits)

lemma parse_endpoints_readable:
  assumes "read_text fs (MAIN_FILE fs) = Inr content"
  shows "parse_endpoints fs =
     Inr (map compiled (firsts (map (new_endpoint content) (finditer_route 0 content))))"
  using assms read_text_exists [OF assms]
  by (simp add: parse_endpoints_def Let_def compile_all_total dedup_values del: map_map)

lemma compiled_fields [simp]:
  "method' (compiled ep) = method' ep" "path (compiled ep) = path ep"
  "line (compiled ep) = line ep" "used (compiled ep) = used ep"
  "matches (compiled ep) = matches ep" "route_key (compiled ep) = route_key ep"
  by (simp_all add: compiled_def route_key_def)

subsection \<open>What the derived pattern matches\<close>

text \<open>
  A path without backslash and star, a parameter segment written \<open>:name\<close> included,
  gets the pattern that matches \<open>/api\<close> and the path letter by letter: it is found
  exactly in the texts that contain them. A path with a segment written \<open>\:name\<close>
  gets a pattern that is found in no text.
\<close>

lemma toks_plain:
  "bslash \<notin> set s \<Longrightarrow> toks s = map (\<lambda>c. if is_special c then TEsc c else TRaw c) s"
proof (induction s)
  case Nil
  then show ?case by simp
next
  case (Cons c cs)
  then have "match_param (c # cs) = None"
    by (auto simp: match_param_def split: list.splits)
  with Cons show ?case by simp
qed

lemma build_regex_plain:
  assumes "bslash \<notin> set (path ep)" and "CHR ''*'' \<notin> set (path ep)"
  shows "build_regex ep = Inr (literal (full_path ep))"
proof -
  from assms have a: "bslash \<notin> set (full_path ep)" "CHR ''*'' \<notin> set (full_path ep)"
    by (auto simp: full_path_def)
  have "CHR ''*'' \<notin> set s \<Longrightarrow>
      concat (map tok_items (map (\<lambda>c. if is_special c then TEsc c else TRaw c) s)) = literal s" for s
    by (induction s) (auto simp: literal_def)
  with a show ?thesis by (simp add: build_regex_tokens toks_plain)
qed

lemma match_here_literal: "match_here (literal p) b s \<longleftrightarrow> prefix p s"
proof (induction p arbitrary: b s)
  case Nil
  then show ?case by (simp add: literal_def)
next
  case (Cons c p)
  then show ?case by (cases s) (auto simp: literal_def)
qed

lemma search_from_literal: "search_from (literal p) b s \<longleftrightarrow> (\<exists>u v. s = u @ p @ v)"
proof (induction s arbitrary: b)
  case Nil
  then show ?case by (auto simp: match_here_literal)
next
  case (Cons c cs)
  have "(\<exists>u v. c # cs = u @ p @ v) \<longleftrightarrow> prefix p (c # cs) \<or> (\<exists>u v. cs = u @ p @ v)"
  proof
    assume "\<exists>u v. c # cs = u @ p @ v"
    then obtain u v where e: "c # cs = u @ p @ v" by blast
    show "prefix p (c # cs) \<or> (\<exists>u v. cs = u @ p @ v)"
    proof (cases u)
      case Nil
      with e show ?thesis by (auto simp: prefix_def)
    next
      case (Cons x xs)
      with e have "cs = xs @ p @ v" by simp
      then show ?thesis by blast
    qed
  next
    assume "prefix p (c # cs) \<or> (\<exists>u v. cs = u @ p @ v)"
    then show "\<exists>u v. c # cs = u @ p @ v"
    proof
      assume "prefix p (c # cs)"
      then obtain v where "c # cs = [] @ p @ v" by (auto simp: prefix_def)
      then show ?thesis by blast
    next
      assume "\<exists>u v. cs = u @ p @ v"
      then obtain u v where "cs = u @ p @ v" by blast
      then have "c # cs = (c # u) @ p @ v" by simp
      then show ?thesis by blast
    qed
  qed
  with Cons show ?case by (simp add: match_here_literal)
qed

lemma re_search_literal: "re_search (literal p) s \<longleftrightarrow> (\<exists>u v. s = u @ p @ v)"
  by (simp add: re_search_def search_from_literal)

lemma blocked_mono: "blocked its True \<Longrightarrow> blocked its False"
  by (induction its "True" rule: blocked.induct) auto

lemma blocked_no_match: "blocked its b \<Longrightarrow> \<not> match_here its b s"
proof (induction its b s rule: match_here.induct)
  case (8 k its b c cs)
  then show ?case using blocked_mono [of its] by (cases b) auto
qed auto

lemma blocked_no_search: "blocked its b \<Longrightarrow> \<not> search_from its b s"
proof (induction s arbitrary: b)
  case Nil
  then show ?case by (simp add: blocked_no_match)
next
  case (Cons c cs)
  from Cons.prems have "blocked its False" using blocked_mono by (cases b) auto
  with Cons show ?case by (simp add: blocked_no_match)
qed

lemma blocked_param:
  "TParam \<in> set ts \<Longrightarrow> blocked (concat (map tok_items ts)) False"
proof (induction ts)
  case Nil
  then show ?case by simp
next
  case (Cons t ts)
  show ?case
  proof (cases t)
    case (TRaw c)
    with Cons show ?thesis by simp
  next
    case (TEsc c)
    with Cons show ?thesis by simp
  next
    case TParam
    then show ?thesis by simp
  qed
qed

lemma toks_param:
  assumes "is_name_char n"
  shows "TParam \<in> set (toks (u @ bslash # CHR '':'' # n # v))"
proof (induction "u @ bslash # CHR '':'' # n # v" arbitrary: u rule: toks.induct)
  case 1
  then show ?case by simp
next
  case (2 c cs)
  show ?case
  proof (cases "match_param (c # cs)")
    case (Some r)
    then show ?thesis unfolding 2(3) [symmetric] by simp
  next
    case None
    have "u \<noteq> []"
    proof
      assume "u = []"
      with 2(3) assms have "match_param (c # cs) \<noteq> None"
        by (auto simp: match_param_def)
      with None show False by simp
    qed
    then obtain x xs where u: "u = x # xs" by (cases u) auto
    with 2(3) have cs: "cs = xs @ bslash # CHR '':'' # n # v" by simp
    from 2(1) [OF None cs] have "TParam \<in> set (toks cs)" unfolding cs [symmetric] .
    with None show ?thesis unfolding 2(3) [symmetric] by simp
  qed
qed

lemma build_regex_param_dead:
  assumes "is_name_char n" and "path ep = u @ bslash # CHR '':'' # n # v"
  shows "\<exists>r. build_regex ep = Inr r \<and> (\<forall>s. \<not> re_search r s)"
proof -
  let ?rest = "''api'' @ path ep"
  have "?rest = (''api'' @ u) @ bslash # CHR '':'' # n # v"
    by (simp add: assms(2))
  with toks_param [OF assms(1), of "''api'' @ u" v]
  have "TParam \<in> set (toks ?rest)" by simp
  then have b: "blocked (concat (map tok_items (toks ?rest))) False"
    by (rule blocked_param)
  have "match_param (CHR ''/'' # ?rest) = None"
    by (simp add: match_param_def)
  moreover have "\<not> is_special (CHR ''/'')"
    by (simp add: is_special_def special_chars_def)
  ultimately have "toks (full_path ep) = TRaw (CHR ''/'') # toks ?rest"
    by (simp add: full_path_def)
  with b have "blocked (concat (map tok_items (toks (full_path ep)))) True"
    by simp
  then have "\<not> re_search (concat (map tok_items (toks (full_path ep)))) s" for s
    unfolding re_search_def by (rule blocked_no_search)
  then show ?thesis by (simp add: build_regex_tokens)
qed

section \<open>The report\<close>

lemma foldl_print_line:
  "foldl (\<lambda>out ep. print_line out (f ep)) out xs = out @ concat (map (\<lambda>ep. f ep @ [newline]) xs)"
  by (induction xs arbitrary: out) (simp_all add: print_line_def)

lemma used_count: "length eps - length (filter (\<lambda>ep. \<not> used ep) eps) = length (filter used eps)"
  using sum_length_filter_compl [of used eps] by simp

lemma report_lines:
  "report eps =
     concat (map (\<lambda>l. l @ [newline])
       ([''Total API endpoints found: '' @ str_of_nat (length eps),
         ''Used by UI artifacts:      '' @ str_of_nat (length (filter used eps)),
         ''Unused in UI (potential):  '' @ str_of_nat (length (filter (\<lambda>ep. \<not> used ep) eps)),
         []]
        @ (if filter (\<lambda>ep. \<not> used ep) eps = []
           then [''All parsed endpoints have at least one UI reference.'']
           else [''Endpoints without matches in ui/* or webassets/*:'']
                @ map unused_line (filter (\<lambda>ep. \<not> used ep) eps)
                @ [[], note_text])))"
  unfolding report_def Let_def used_count foldl_print_line
  by (simp add: print_line_def comp_def del: str_of_nat.simps)

lemma report_cong:
  assumes "map shown xs = map shown ys"
  shows "report xs = report ys"
proof -
  have len: "length xs = length ys" using assms by (rule map_eq_imp_length_eq)
  have "map unused_line (filter (\<lambda>ep. \<not> used ep) xs) = map unused_line (filter (\<lambda>ep. \<not> used ep) ys)
        \<and> length (filter used xs) = length (filter used ys)"
    using len assms
  proof (induction xs ys rule: list_induct2)
    case Nil
    then show ?case by simp
  next
    case (Cons x xs y ys)
    then have "shown x = shown y" by simp
    then have "used x = used y" "unused_line x = unused_line y"
      by (simp_all add: shown_def unused_line_def full_path_def)
    with Cons show ?case by simp
  qed
  then have u: "map unused_line (filter (\<lambda>ep. \<not> used ep) xs) = map unused_line (filter (\<lambda>ep. \<not> used ep) ys)"
    and c: "length (filter used xs) = length (filter used ys)" by simp_all
  from u have e: "(filter (\<lambda>ep. \<not> used ep) xs = []) = (filter (\<lambda>ep. \<not> used ep) ys = [])"
    by (metis map_is_Nil_conv)
  from u have l: "length (filter (\<lambda>ep. \<not> used ep) xs) = length (filter (\<lambda>ep. \<not> used ep) ys)"
    by (rule map_eq_imp_length_eq)
  show ?thesis unfolding report_lines len c u e l ..
qed

lemma same_nodes:
  assumes "repo_root fs1 = repo_root fs2" and "map_of (entries fs1) = map_of (entries fs2)"
  shows "MAIN_FILE fs1 = MAIN_FILE fs2" "UI_DIRS fs1 = UI_DIRS fs2"
    "path_exists fs1 = path_exists fs2" "is_dir fs1 = is_dir fs2" "read_text fs1 = read_text fs2"
  using assms
  by (auto simp: MAIN_FILE_def UI_DIRS_def path_exists_def is_dir_def read_text_def fun_eq_iff)

lemma same_parse:
  assumes "repo_root fs1 = repo_root fs2" and "map_of (entries fs1) = map_of (entries fs2)"
  shows "parse_endpoints fs1 = parse_endpoints fs2"
  unfolding parse_endpoints_def same_nodes [OF assms] ..

lemma same_scanned:
  assumes "repo_root fs1 = repo_root fs2" and "map_of (entries fs1) = map_of (entries fs2)"
  shows "set (scanned_files fs1) = set (scanned_files fs2)"
proof -
  have "(rel, t) \<in> set (scanned_files fs1) \<longleftrightarrow> (rel, t) \<in> set (scanned_files fs2)" for rel t
    unfolding scanned_files_iff same_nodes [OF assms] assms ..
  then show ?thesis by auto
qed

lemma same_scan_error:
  assumes "repo_root fs1 = repo_root fs2" and "map_of (entries fs1) = map_of (entries fs2)"
  shows "scan_error fs1 = None \<longleftrightarrow> scan_error fs2 = None"
proof -
  have "p \<in> set (iter_ui_files fs1) \<longleftrightarrow> p \<in> set (iter_ui_files fs2)" for p
    unfolding iter_ui_files_iff same_nodes [OF assms] assms ..
  then have "set (iter_ui_files fs1) = set (iter_ui_files fs2)" by auto
  then show ?thesis unfolding scan_error_None assms(2) by simp
qed

lemma main_readable:
  "main fs =
     (case parse_endpoints fs of
        Inl e \<Rightarrow> ([], Some e)
      | Inr eps \<Rightarrow>
          if eps = [] then (print_line [] ''No API endpoints parsed.'', None)
          else (case scan_error fs of
                  Some e \<Rightarrow> ([], Some e)
                | None \<Rightarrow> (report (map (scan_one (scanned_files fs)) eps), None)))"
  by (simp add: main_def scan_usage_result split: sum.splits option.splits)

section \<open>Examples\<close>

lemma example_parse: "parse_endpoints example_fs = Inr example_endpoints"
  by code_simp


lemma example_scan:
  "scan_usage example_fs example_endpoints =
     Inr [(example_endpoints ! 0)\<lparr>used := True, matches := [[''ui'', ''app.js'']]\<rparr>,
          example_endpoints ! 1]"
  by code_simp

section \<open>The claims\<close>

text \<open>
  C1, where the code departs from it. The declaration
  \<open>api.POST("/servers/:id/restart", restart)\<close> gets the pattern that matches the
  text \<open>/api/servers/:id/restart\<close> letter by letter: \<open>re.escape\<close> leaves the colon
  as it is, so \<open>PARAM_RE\<close> finds no backslash before it. The pattern is not found in
  \<open>fetch("/api/servers/42/restart")\<close>, and the endpoint is reported as unused. With
  the segment written \<open>\:id\<close> in the path, the backslash that \<open>re.escape\<close> adds
  stays in front of the class, whose bracket becomes a literal character followed by the
  anchor \<open>^\<close>: that pattern is not found there either. The lemmas
  \<open>build_regex_plain\<close>, \<open>re_search_literal\<close> and \<open>build_regex_param_dead\<close> say
  the same of every such path.
\<close>

theorem param_segment_not_matched:
  "parse_endpoints restart_fs =
     Inr [\<lparr>method' = ''POST'', path = ''/servers/:id/restart'', line = 1,
           regex = Some (map (\<lambda>c. Rep (Lit c) Once) ''/api/servers/:id/restart''),
           used = False, matches = []\<rparr>] \<and>
   scanned_files restart_fs = [([''ui'', ''app.js''], ''fetch(\"/api/servers/42/restart\")'')] \<and>
   \<not> re_search (map (\<lambda>c. Rep (Lit c) Once) ''/api/servers/:id/restart'')
        ''fetch(\"/api/servers/42/restart\")'' \<and>
   main restart_fs =
     (concat (map (\<lambda>l. l @ [newline])
        [''Total API endpoints found: 1'',
         ''Used by UI artifacts:      0'',
         ''Unused in UI (potential):  1'',
         [],
         ''Endpoints without matches in ui/* or webassets/*:'',
         ''  - POST   /api/servers/:id/restart (defined line 1)'',
         [],
         note_text]), None) \<and>
   build_regex \<lparr>method' = ''POST'', path = ''/servers/'' @ [bslash] @ '':id/restart'', line = 1,
           regex = None, used = False, matches = []\<rparr> =
     Inr (map (\<lambda>c. Rep (Lit c) Once) ''/api/servers/'' @
          [Rep (Lit (CHR ''['')) Once, Bol, Rep (Lit (CHR ''/'')) Once,
           Rep (Lit (CHR '']'')) Plus] @
          map (\<lambda>c. Rep (Lit c) Once) ''/restart'') \<and>
   \<not> re_search (map (\<lambda>c. Rep (Lit c) Once) ''/api/servers/'' @
          [Rep (Lit (CHR ''['')) Once, Bol, Rep (Lit (CHR ''/'')) Once,
           Rep (Lit (CHR '']'')) Plus] @
          map (\<lambda>c. Rep (Lit c) Once) ''/restart'')
        ''fetch(\"/api/servers/42/restart\")''"
  by code_simp

text \<open>
  C2, as the code has it. For every text of the source file, \<open>parse_endpoints\<close>
  returns a list with exactly one endpoint for each pair of method and path among the
  occurrences that \<open>finditer\<close> yields: the pairs of the list are distinct and are the
  pairs of those occurrences. The scan goes from left to right and goes on where the
  last occurrence ended, so the occurrences that it yields do not overlap: an occurrence
  of the shape of a declaration is yielded exactly when it does not begin inside an
  occurrence that is yielded, after the start of that one and before its end. Each
  endpoint has the pair of a yielded occurrence, and its line is the number of line feeds
  before the start of the first yielded occurrence with that pair, plus one.
\<close>

theorem parse_endpoints_unique:
  assumes "read_text fs (MAIN_FILE fs) = Inr content"
  shows "\<exists>eps. parse_endpoints fs = Inr eps \<and>
           distinct (map route_key eps) \<and>
           (\<forall>m p. (m, p) \<in> route_key ` set eps \<longleftrightarrow>
                    (\<exists>st. (st, m, p) \<in> set (finditer_route 0 content))) \<and>
           (\<forall>st m p. (st, m, p) \<in> set (finditer_route 0 content) \<longleftrightarrow>
                    (\<exists>en. route_at content st m p en) \<and>
                    \<not> (\<exists>st' m' p' en'. (st', m', p') \<in> set (finditer_route 0 content) \<and>
                           route_at content st' m' p' en' \<and> st' < st \<and> st < en')) \<and>
           (\<forall>ep \<in> set eps. \<exists>st.
              (st, method' ep, path ep) \<in> set (finditer_route 0 content) \<and>
              (\<forall>st'. (st', method' ep, path ep) \<in> set (finditer_route 0 content) \<longrightarrow> st \<le> st') \<and>
              line ep = count_list (take st content) newline + 1)"
proof -
  define ms where "ms = finditer_route 0 content"
  define eps0 where "eps0 = map (new_endpoint content) ms"
  define eps where "eps = map compiled (firsts eps0)"
  have key0: "route_key (new_endpoint content mt) = snd mt" for mt
    by (cases mt) (simp add: new_endpoint_def route_key_def)
  have p: "parse_endpoints fs = Inr eps"
    using parse_endpoints_readable [OF assms] by (simp add: eps_def eps0_def ms_def)
  have d: "distinct (map route_key eps)"
    using distinct_firsts [of eps0] by (simp add: eps_def comp_def)
  have "route_key ` set eps = route_key ` set (firsts eps0)"
    by (simp add: eps_def image_image)
  also have "\<dots> = route_key ` set eps0" by (rule keys_firsts)
  also have "\<dots> = snd ` set ms" by (simp add: eps0_def image_image key0)
  finally have "route_key ` set eps = snd ` set ms" .
  then have k: "(m, q) \<in> route_key ` set eps \<longleftrightarrow> (\<exists>st. (st, m, q) \<in> set ms)" for m q
    by force
  have c: "(st, m, q) \<in> set ms \<longleftrightarrow>
             (\<exists>en. route_at content st m q en) \<and>
             \<not> (\<exists>st' m' p' en'. (st', m', p') \<in> set ms \<and>
                    route_at content st' m' p' en' \<and> st' < st \<and> st < en')" for st m q
    unfolding ms_def by (rule finditer_route_iff)
  have f: "\<exists>st. (st, method' ep, path ep) \<in> set ms \<and>
              (\<forall>st'. (st', method' ep, path ep) \<in> set ms \<longrightarrow> st \<le> st') \<and>
              line ep = count_list (take st content) newline + 1"
    if "ep \<in> set eps" for ep
  proof -
    from that obtain a where a: "a \<in> set (firsts eps0)" and ep: "ep = compiled a"
      by (auto simp: eps_def)
    from firsts_find [OF a] obtain i where
      i: "i < length eps0" "a = eps0 ! i" and
      first: "\<forall>j < i. route_key (eps0 ! j) \<noteq> route_key a"
      by (auto simp: find_Some_iff)
    obtain st m q where mt: "ms ! i = (st, m, q)" by (cases "ms ! i")
    from i have il: "i < length ms" by (simp add: eps0_def)
    with i mt have a': "a = new_endpoint content (st, m, q)" by (simp add: eps0_def)
    then have fields: "method' ep = m" "path ep = q"
      "line ep = count_list (take st content) newline + 1"
      by (simp_all add: ep new_endpoint_def str_count_def)
    have least: "st \<le> st'" if m': "(st', m, q) \<in> set ms" for st'
    proof -
      from m' obtain j where j: "j < length ms" "ms ! j = (st', m, q)"
        by (auto simp: in_set_conv_nth)
      have "\<not> j < i"
      proof
        assume ji: "j < i"
        with first have "route_key (eps0 ! j) \<noteq> route_key a" by simp
        moreover from j have "eps0 ! j = new_endpoint content (ms ! j)" by (simp add: eps0_def)
        ultimately show False using j by (simp add: key0 a')
      qed
      then consider "j = i" | "i < j" by linarith
      then show ?thesis
      proof cases
        case 1
        with j mt show ?thesis by simp
      next
        case 2
        from finditer_route_sorted [of content] have "sorted_wrt (<) (map fst ms)"
          by (simp add: ms_def)
        with 2 j(1) have "map fst ms ! i < map fst ms ! j"
          by (simp add: sorted_wrt_iff_nth_less)
        with 2 j il mt show ?thesis by simp
      qed
    qed
    from il mt have "(st, m, q) \<in> set ms" by (metis nth_mem)
    with least fields show ?thesis by auto
  qed
  from p d k c f show ?thesis unfolding ms_def by blast
qed

text \<open>
  In the example the declarations stand on the third, fourth and fifth line of a Go
  file; the third repeats the first, with a space before the parenthesis.
\<close>

theorem parse_endpoints_unique_witness:
  "read_text example_fs (MAIN_FILE example_fs) = Inr example_content \<and>
   finditer_route 0 example_content = [(30, ''GET'', ''/a''), (51, ''PUT'', ''/b''), (71, ''GET'', ''/a'')] \<and>
   route_at example_content 30 ''GET'' ''/a'' 42 \<and>
   route_at example_content 71 ''GET'' ''/a'' 84 \<and>
   parse_endpoints example_fs = Inr example_endpoints \<and>
   map (\<lambda>ep. (method' ep, path ep, line ep)) example_endpoints =
     [(''GET'', ''/a'', 3), (''PUT'', ''/b'', 4)] \<and>
   (\<exists>eps. parse_endpoints example_fs = Inr eps \<and>
           distinct (map route_key eps) \<and>
           (\<forall>m p. (m, p) \<in> route_key ` set eps \<longleftrightarrow>
                    (\<exists>st. (st, m, p) \<in> set (finditer_route 0 example_content))) \<and>
           (\<forall>st m p. (st, m, p) \<in> set (finditer_route 0 example_content) \<longleftrightarrow>
                    (\<exists>en. route_at example_content st m p en) \<and>
                    \<not> (\<exists>st' m' p' en'. (st', m', p') \<in> set (finditer_route 0 example_content) \<and>
                           route_at example_content st' m' p' en' \<and> st' < st \<and> st < en')) \<and>
           (\<forall>ep \<in> set eps. \<exists>st.
              (st, method' ep, path ep) \<in> set (finditer_route 0 example_content) \<and>
              (\<forall>st'. (st', method' ep, path ep) \<in> set (finditer_route 0 example_content) \<longrightarrow> st \<le> st') \<and>
              line ep = count_list (take st example_content) newline + 1))"
proof -
  have h: "read_text example_fs (MAIN_FILE example_fs) = Inr example_content"
    by code_simp
  have f: "finditer_route 0 example_content =
      [(30, ''GET'', ''/a''), (51, ''PUT'', ''/b''), (71, ''GET'', ''/a'')]"
    by code_simp
  have l: "length example_content = 94" by code_simp
  have "match_route (drop 30 example_content) =
      Some (''GET'', ''/a'', drop 42 example_content)" by code_simp
  then have a: "route_at example_content 30 ''GET'' ''/a'' 42"
    unfolding route_at_iff by (simp add: l)
  have "match_route (drop 71 example_content) =
      Some (''GET'', ''/a'', drop 84 example_content)" by code_simp
  then have b: "route_at example_content 71 ''GET'' ''/a'' 84"
    unfolding route_at_iff by (simp add: l)
  have k: "map (\<lambda>ep. (method' ep, path ep, line ep)) example_endpoints =
     [(''GET'', ''/a'', 3), (''PUT'', ''/b'', 4)]"
    by code_simp
  from h f a b example_parse k parse_endpoints_unique [OF h] show ?thesis
    by (intro conjI)
qed

text \<open>
  The claim C2 as stated fails: a declaration that begins inside an occurrence is an
  occurrence of the shape and gets no endpoint. Here a comment opens a declaration and
  does not close its string; the occurrence that starts in the comment ends at the first
  double quote of the next line, and the declaration \<open>api.POST("/real", h)\<close> of that
  line, from index 17 to index 33, is passed over.
\<close>

theorem swallowed_declaration_counterexample:
  "read_text swallow_fs (MAIN_FILE swallow_fs) = Inr swallow_content \<and>
   route_at swallow_content 17 ''POST'' ''/real'' 33 \<and>
   finditer_route 0 swallow_content = [(7, ''GET'', newline # ''api.POST('')] \<and>
   (\<exists>eps. parse_endpoints swallow_fs = Inr eps \<and>
          map route_key eps = [(''GET'', newline # ''api.POST('')])"
proof -
  have h: "read_text swallow_fs (MAIN_FILE swallow_fs) = Inr swallow_content"
    by code_simp
  have d: "drop 17 swallow_content = ''api.POST(\"/real\", h)''"
    by (simp add: swallow_content_def)
  have "match_route ''api.POST(\"/real\", h)'' = Some (''POST'', ''/real'', '', h)'')"
    by code_simp
  moreover have "length swallow_content = 37" by (simp add: swallow_content_def)
  ultimately have r: "route_at swallow_content 17 ''POST'' ''/real'' 33"
    unfolding route_at_iff d by simp
  have f: "finditer_route 0 swallow_content = [(7, ''GET'', newline # ''api.POST('')]"
    by code_simp
  have "map route_key (firsts (map (new_endpoint swallow_content) (finditer_route 0 swallow_content)))
      = [(''GET'', newline # ''api.POST('')]"
    unfolding f by (simp add: new_endpoint_def route_key_def)
  then have "map route_key (map compiled (firsts (map (new_endpoint swallow_content)
      (finditer_route 0 swallow_content)))) = [(''GET'', newline # ''api.POST('')]"
    by (simp add: comp_def)
  with parse_endpoints_readable [OF h] have
    "\<exists>eps. parse_endpoints swallow_fs = Inr eps \<and>
          map route_key eps = [(''GET'', newline # ''api.POST('')]"
    by simp
  with h r f show ?thesis by (intro conjI)
qed

text \<open>
  C3. During \<open>scan_usage\<close> an endpoint that is marked used is not tested again: it
  comes out as it went in, whatever the later files hold. An endpoint that is not yet
  used is marked on the first scanned file in which its derived pattern is found:
  \<open>used\<close> is set and the path of that file relative to the repository root is
  appended to \<open>matches\<close>; with no such file it is left as it was. The call returns
  unless a listed file cannot be opened, and then ends with the exception of the first
  such file.
\<close>

theorem scan_usage_first_match:
  "scan_usage fs eps =
     (case scan_error fs of
        Some e \<Rightarrow> Inl e
      | None \<Rightarrow>
          Inr (map (\<lambda>ep.
                 if used ep then ep
                 else case find (\<lambda>(rel, text). pattern_found ep text) (scanned_files fs) of
                        None \<Rightarrow> ep
                      | Some (rel, text) \<Rightarrow> ep\<lparr>used := True, matches := matches ep @ [rel]\<rparr>)
                eps))"
proof -
  have "scan_one (scanned_files fs) =
    (\<lambda>ep. if used ep then ep
          else case find (\<lambda>(rel, text). pattern_found ep text) (scanned_files fs) of
                 None \<Rightarrow> ep
               | Some (rel, text) \<Rightarrow> ep\<lparr>used := True, matches := matches ep @ [rel]\<rparr>)"
    by (rule ext) (simp add: scan_one_def)
  then show ?thesis
    using scan_usage_result [of fs eps] by (cases "scan_error fs") simp_all
qed

text \<open>
  In the example an endpoint that is already used keeps its old entry, and a fresh one
  gets the first of the two files that hold a match.
\<close>

theorem scan_usage_first_match_witness:
  "scan_error example_fs = None \<and>
   scan_usage example_fs
     [(example_endpoints ! 0)\<lparr>used := True, matches := [[''ui'', ''old.js'']]\<rparr>,
      example_endpoints ! 0, example_endpoints ! 1] =
   Inr [(example_endpoints ! 0)\<lparr>used := True, matches := [[''ui'', ''old.js'']]\<rparr>,
        (example_endpoints ! 0)\<lparr>used := True, matches := [[''ui'', ''app.js'']]\<rparr>,
        example_endpoints ! 1]"
proof -
  let ?eps = "[(example_endpoints ! 0)\<lparr>used := True, matches := [[''ui'', ''old.js'']]\<rparr>,
      example_endpoints ! 0, example_endpoints ! 1]"
  have n: "scan_error example_fs = None" by code_simp
  have "scan_usage example_fs ?eps =
     Inr (map (\<lambda>ep.
            if used ep then ep
            else case find (\<lambda>(rel, text). pattern_found ep text) (scanned_files example_fs) of
                   None \<Rightarrow> ep
                 | Some (rel, text) \<Rightarrow> ep\<lparr>used := True, matches := matches ep @ [rel]\<rparr>) ?eps)"
    using scan_usage_first_match [of example_fs ?eps] by (simp add: n)
  also have "\<dots> = Inr [(example_endpoints ! 0)\<lparr>used := True, matches := [[''ui'', ''old.js'']]\<rparr>,
        (example_endpoints ! 0)\<lparr>used := True, matches := [[''ui'', ''app.js'']]\<rparr>,
        example_endpoints ! 1]"
    by code_simp
  finally show ?thesis using n by simp
qed

text \<open>
  C4, as the code has it. When the list of endpoints is not empty and the scan returns,
  the report gives, each on a line of its own, the number of endpoints, the number of
  endpoints whose pattern was found in a scanned file, and the number of the others; the
  two counts add up to the total. After an empty line it either says that every endpoint
  has a reference, or lists the unused endpoints in the order of the list, each as the
  method, filled with spaces on its right up to six characters (a longer method is
  printed whole), the path after \<open>/api\<close>, and the line of the declaration, followed
  by an empty line and the fixed note. When the scan ends with an exception, the run ends
  with it and nothing is printed.
\<close>

theorem report_contents:
  assumes "parse_endpoints fs = Inr eps" and "eps \<noteq> []"
  shows "case scan_usage fs eps of
      Inl e \<Rightarrow> main fs = ([], Some e)
    | Inr eps' \<Rightarrow>
     main fs = (report eps', None) \<and>
     map (\<lambda>ep. (method' ep, path ep, line ep)) eps' = map (\<lambda>ep. (method' ep, path ep, line ep)) eps \<and>
     map used eps' = map (\<lambda>ep. \<exists>(rel, t) \<in> set (scanned_files fs). pattern_found ep t) eps \<and>
     length (filter used eps') + length (filter (\<lambda>ep. \<not> used ep) eps') = length eps' \<and>
     report eps' =
       concat (map (\<lambda>l. l @ [newline])
         ([''Total API endpoints found: '' @ str_of_nat (length eps'),
           ''Used by UI artifacts:      '' @ str_of_nat (length (filter used eps')),
           ''Unused in UI (potential):  '' @ str_of_nat (length (filter (\<lambda>ep. \<not> used ep) eps')),
           []]
          @ (if filter (\<lambda>ep. \<not> used ep) eps' = []
             then [''All parsed endpoints have at least one UI reference.'']
             else [''Endpoints without matches in ui/* or webassets/*:'']
                  @ map (\<lambda>ep. ''  - '' @ method' ep
                                @ replicate (6 - length (method' ep)) (CHR '' '')
                                @ '' /api'' @ path ep
                                @ '' (defined line '' @ str_of_nat (line ep) @ '')'')
                      (filter (\<lambda>ep. \<not> used ep) eps')
                  @ [[], note_text])))"
proof (cases "scan_usage fs eps")
  case (Inl e)
  then have "scan_error fs = Some e"
    by (auto simp: scan_usage_result split: option.splits)
  with assms have "main fs = ([], Some e)" by (simp add: main_readable)
  with Inl show ?thesis by simp
next
  case (Inr eps')
  then have n: "scan_error fs = None" and
    eps'_def: "eps' = map (scan_one (scanned_files fs)) eps"
    by (auto simp: scan_usage_result split: option.splits)
  have m: "main fs = (report eps', None)"
    using assms(1,2) n by (simp add: main_readable eps'_def)
  have f: "map (\<lambda>ep. (method' ep, path ep, line ep)) eps' = map (\<lambda>ep. (method' ep, path ep, line ep)) eps"
    by (simp add: eps'_def)
  have u: "map used eps' = map (\<lambda>ep. \<exists>(rel, t) \<in> set (scanned_files fs). pattern_found ep t) eps"
    using parse_endpoints_fresh [OF assms(1)] by (simp add: eps'_def used_scan_one)
  have l: "unused_line = (\<lambda>ep. ''  - '' @ method' ep
                                @ replicate (6 - length (method' ep)) (CHR '' '')
                                @ '' /api'' @ path ep
                                @ '' (defined line '' @ str_of_nat (line ep) @ '')'')"
    by (rule ext) (simp add: unused_line_def ljust_def full_path_def del: str_of_nat.simps)
  from m f u sum_length_filter_compl [of used eps'] report_lines [of eps', unfolded l]
  have "main fs = (report eps', None) \<and>
     map (\<lambda>ep. (method' ep, path ep, line ep)) eps' = map (\<lambda>ep. (method' ep, path ep, line ep)) eps \<and>
     map used eps' = map (\<lambda>ep. \<exists>(rel, t) \<in> set (scanned_files fs). pattern_found ep t) eps \<and>
     length (filter used eps') + length (filter (\<lambda>ep. \<not> used ep) eps') = length eps' \<and>
     report eps' =
       concat (map (\<lambda>l. l @ [newline])
         ([''Total API endpoints found: '' @ str_of_nat (length eps'),
           ''Used by UI artifacts:      '' @ str_of_nat (length (filter used eps')),
           ''Unused in UI (potential):  '' @ str_of_nat (length (filter (\<lambda>ep. \<not> used ep) eps')),
           []]
          @ (if filter (\<lambda>ep. \<not> used ep) eps' = []
             then [''All parsed endpoints have at least one UI reference.'']
             else [''Endpoints without matches in ui/* or webassets/*:'']
                  @ map (\<lambda>ep. ''  - '' @ method' ep
                                @ replicate (6 - length (method' ep)) (CHR '' '')
                                @ '' /api'' @ path ep
                                @ '' (defined line '' @ str_of_nat (line ep) @ '')'')
                      (filter (\<lambda>ep. \<not> used ep) eps')
                  @ [[], note_text])))"
    by blast
  then show ?thesis unfolding Inr sum.case .
qed

text \<open>
  In the example the scan returns; one of the two endpoints has a reference, and the
  other is listed.
\<close>

theorem report_contents_witness:
  "parse_endpoints example_fs = Inr example_endpoints \<and> example_endpoints \<noteq> [] \<and>
   scan_usage example_fs example_endpoints =
     Inr [(example_endpoints ! 0)\<lparr>used := True, matches := [[''ui'', ''app.js'']]\<rparr>,
          example_endpoints ! 1] \<and>
   main example_fs =
     (concat (map (\<lambda>l. l @ [newline])
        [''Total API endpoints found: 2'',
         ''Used by UI artifacts:      1'',
         ''Unused in UI (potential):  1'',
         [],
         ''Endpoints without matches in ui/* or webassets/*:'',
         ''  - PUT    /api/b (defined line 4)'',
         [],
         note_text]), None)"
proof -
  let ?eps' = "[(example_endpoints ! 0)\<lparr>used := True, matches := [[''ui'', ''app.js'']]\<rparr>,
          example_endpoints ! 1]"
  have n: "example_endpoints \<noteq> []" by (simp add: example_endpoints_def)
  from report_contents [OF example_parse n]
  have "main example_fs = (report ?eps', None)" unfolding example_scan sum.case by blast
  moreover have "report ?eps' =
     concat (map (\<lambda>l. l @ [newline])
        [''Total API endpoints found: 2'',
         ''Used by UI artifacts:      1'',
         ''Unused in UI (potential):  1'',
         [],
         ''Endpoints without matches in ui/* or webassets/*:'',
         ''  - PUT    /api/b (defined line 4)'',
         [],
         note_text])"
    by code_simp
  ultimately have "main example_fs =
     (concat (map (\<lambda>l. l @ [newline])
        [''Total API endpoints found: 2'',
         ''Used by UI artifacts:      1'',
         ''Unused in UI (potential):  1'',
         [],
         ''Endpoints without matches in ui/* or webassets/*:'',
         ''  - PUT    /api/b (defined line 4)'',
         [],
         note_text]), None)"
    by simp
  then show ?thesis by (intro conjI example_parse n example_scan)
qed

text \<open>
  The claim C4 as stated fails where it has the method padded on the left to a fixed
  width: \<open>GET\<close> is printed with its three spaces after it, and \<open>OPTIONS\<close> takes
  seven characters.
\<close>

theorem method_column_counterexample:
  "main options_fs =
     (concat (map (\<lambda>l. l @ [newline])
        [''Total API endpoints found: 2'',
         ''Used by UI artifacts:      0'',
         ''Unused in UI (potential):  2'',
         [],
         ''Endpoints without matches in ui/* or webassets/*:'',
         ''  - GET    /api/a (defined line 1)'',
         ''  - OPTIONS /api/b (defined line 2)'',
         [],
         note_text]), None) \<and>
   (\<forall>w. ''  - GET    /api/a (defined line 1)'' \<noteq>
      ''  - '' @ replicate (w - length ''GET'') (CHR '' '') @ ''GET'' @ '' /api/a (defined line 1)'') \<and>
   length (ljust 6 ''GET'') \<noteq> length (ljust 6 ''OPTIONS'')"
proof -
  have o: "main options_fs =
     (concat (map (\<lambda>l. l @ [newline])
        [''Total API endpoints found: 2'',
         ''Used by UI artifacts:      0'',
         ''Unused in UI (potential):  2'',
         [],
         ''Endpoints without matches in ui/* or webassets/*:'',
         ''  - GET    /api/a (defined line 1)'',
         ''  - OPTIONS /api/b (defined line 2)'',
         [],
         note_text]), None)"
    by code_simp
  have p: "''  - GET    /api/a (defined line 1)'' \<noteq>
      ''  - '' @ replicate (w - length ''GET'') (CHR '' '') @ ''GET'' @ '' /api/a (defined line 1)''" for w
    by (cases "w - length ''GET''") simp_all
  have l: "length (ljust 6 ''GET'') \<noteq> length (ljust 6 ''OPTIONS'')"
    by (simp add: ljust_def)
  show ?thesis by (intro conjI allI o p l)
qed




text \<open>
  C6. If \<open>parse_endpoints\<close> returns an empty list, the tool prints the one line
  \<open>No API endpoints parsed.\<close> and nothing else, and ends normally (no exception):
  the scan and the report are not run.
\<close>

theorem main_no_endpoints:
  assumes "parse_endpoints fs = Inr []"
  shows "main fs = (''No API endpoints parsed.'' @ [newline], None)"
  using assms by (simp add: main_def print_line_def)

theorem main_no_endpoints_witness:
  "parse_endpoints no_routes_fs = Inr []
   \<and> main no_routes_fs
     = (''No API endpoints parsed.'' @ [newline], None)"
proof -
  have h: "parse_endpoints no_routes_fs = Inr []"
    by code_simp
  from h main_no_endpoints [OF h] show ?thesis by simp
qed




text \<open>
  C8, as the code has it. For every extracted endpoint the method is a non-empty run of
  the letters \<open>A\<close> to \<open>Z\<close>, and the path is the text between the double quotes of
  a declaration in the source file: it is not empty and holds no double quote. The
  pattern asks nothing more of the path, so it begins with a slash only when the
  declaration is written so.
\<close>

theorem extracted_endpoint_shape:
  assumes "parse_endpoints fs = Inr eps" and "ep \<in> set eps"
  shows "method' ep \<noteq> [] \<and> (\<forall>c \<in> set (method' ep). is_upper c) \<and>
         path ep \<noteq> [] \<and> dquote \<notin> set (path ep) \<and>
         (\<exists>content st ws1 ws2 r.
            read_text fs (MAIN_FILE fs) = Inr content \<and>
            drop st content =
              ''api.'' @ method' ep @ ws1 @ ''('' @ ws2 @ dquote # path ep @ dquote # r \<and>
            (\<forall>c \<in> set ws1. is_space c) \<and> (\<forall>c \<in> set ws2. is_space c))"
proof -
  from parse_endpoints_match [OF assms] obtain content st r where
    c: "read_text fs (MAIN_FILE fs) = Inr content" and
    m: "match_route (drop st content) = Some (method' ep, path ep, r)"
    by blast
  from match_route_shape [OF m] c show ?thesis by blast
qed

theorem extracted_endpoint_shape_witness:
  "parse_endpoints example_fs = Inr example_endpoints \<and>
   example_endpoints ! 1 \<in> set example_endpoints \<and>
   method' (example_endpoints ! 1) = ''PUT'' \<and> path (example_endpoints ! 1) = ''/b'' \<and>
   list_all is_upper (method' (example_endpoints ! 1)) \<and>
   dquote \<notin> set (path (example_endpoints ! 1)) \<and>
   (\<exists>content st ws1 ws2 r.
        read_text example_fs (MAIN_FILE example_fs) = Inr content \<and>
        drop st content =
          ''api.'' @ method' (example_endpoints ! 1) @ ws1 @ ''('' @ ws2
            @ dquote # path (example_endpoints ! 1) @ dquote # r \<and>
        (\<forall>c \<in> set ws1. is_space c) \<and> (\<forall>c \<in> set ws2. is_space c))"
proof -
  have m: "example_endpoints ! 1 \<in> set example_endpoints" by (simp add: example_endpoints_def)
  have f: "method' (example_endpoints ! 1) = ''PUT''" "path (example_endpoints ! 1) = ''/b''"
    by (simp_all add: example_endpoints_def)
  from extracted_endpoint_shape [OF example_parse m] example_parse m f show ?thesis
    unfolding list_all_iff by blast
qed

text \<open>
  The claim C8 as stated fails: the declaration \<open>api.GET("x", h)\<close> is extracted with
  the path \<open>x\<close>.
\<close>

theorem path_without_slash_counterexample:
  "parse_endpoints bare_fs =
     Inr [\<lparr>method' = ''GET'', path = ''x'', line = 1,
           regex = Some (map (\<lambda>c. Rep (Lit c) Once) ''/apix''), used = False, matches = []\<rparr>]
   \<and> \<not> (\<forall>eps ep. parse_endpoints bare_fs = Inr eps \<longrightarrow> ep \<in> set eps \<longrightarrow>
            prefix ''/'' (path ep))"
proof -
  have p: "parse_endpoints bare_fs =
     Inr [\<lparr>method' = ''GET'', path = ''x'', line = 1,
           regex = Some (map (\<lambda>c. Rep (Lit c) Once) ''/apix''), used = False, matches = []\<rparr>]"
    by code_simp
  then show ?thesis by force
qed

text \<open>
  C9. The output of the tool is a function of the contents of the file system, and it
  does not depend on the order in which a traversal yields the files: two file systems
  with the same repository root and the same node at every path give the same output,
  whatever the order of their listings. The two runs end in the same way as well, but for
  one case: when files that are yielded cannot be opened, the order decides which of them
  is opened first, and each run prints nothing and ends with \<open>PermissionError\<close> or
  \<open>FileNotFoundError\<close>.
\<close>

theorem report_deterministic:
  assumes "repo_root fs1 = repo_root fs2" and "map_of (entries fs1) = map_of (entries fs2)"
  shows "fst (main fs1) = fst (main fs2) \<and>
         (main fs1 = main fs2 \<or>
          fst (main fs1) = [] \<and>
          snd (main fs1) \<in> {Some PermissionError, Some FileNotFoundError} \<and>
          snd (main fs2) \<in> {Some PermissionError, Some FileNotFoundError})"
proof -
  have "shown (scan_one (scanned_files fs1) ep) = shown (scan_one (scanned_files fs2) ep)" for ep
    by (simp add: shown_def used_scan_one same_scanned [OF assms])
  then have r: "report (map (scan_one (scanned_files fs1)) eps) = report (map (scan_one (scanned_files fs2)) eps)"
    for eps by (intro report_cong) simp
  show ?thesis
  proof (cases "scan_error fs1")
    case None
    with same_scan_error [OF assms] have "scan_error fs2 = None" by simp
    with None have "main fs1 = main fs2"
      unfolding main_readable same_parse [OF assms] by (simp add: r split: sum.splits)
    then show ?thesis by simp
  next
    case (Some e)
    with same_scan_error [OF assms] obtain e' where e': "scan_error fs2 = Some e'" by auto
    from scan_error_Some [OF Some] have e: "e = PermissionError \<or> e = FileNotFoundError"
      by auto
    from scan_error_Some [OF e'] have "e' = PermissionError \<or> e' = FileNotFoundError"
      by auto
    with e Some e' show ?thesis
      unfolding main_readable same_parse [OF assms]
      by (auto simp: print_line_def split: sum.splits)
  qed
qed

theorem report_deterministic_witness:
  "repo_root example_fs = repo_root example_fs_rev \<and>
   map_of (entries example_fs) = map_of (entries example_fs_rev) \<and>
   entries example_fs \<noteq> entries example_fs_rev \<and>
   scanned_files example_fs_rev = rev (scanned_files example_fs) \<and>
   snd (main example_fs) = None \<and>
   main example_fs = main example_fs_rev"
proof -
  have r: "repo_root example_fs = repo_root example_fs_rev"
    by (simp add: example_fs_rev_def)
  have m: "map_of (entries example_fs) = map_of (entries example_fs_rev)"
    by (rule ext) (simp add: example_fs_rev_def example_fs_def)
  have d: "entries example_fs \<noteq> entries example_fs_rev"
    by (simp add: example_fs_rev_def example_fs_def)
  have s: "scanned_files example_fs_rev = rev (scanned_files example_fs)"
    by code_simp
  have n: "snd (main example_fs) = None" by code_simp
  from report_deterministic [OF r m] n have "main example_fs = main example_fs_rev"
    by (simp add: prod_eq_iff)
  with r m d s n show ?thesis by (intro conjI)
qed

text \<open>
  Where two listed files cannot be opened, the exception that ends the run is that of
  the file that the traversal yields first.
\<close>

lemma first_unopenable_decides:
  "repo_root broken_fs = repo_root broken_fs_rev \<and>
   map_of (entries broken_fs) = map_of (entries broken_fs_rev) \<and>
   main broken_fs = ([], Some PermissionError) \<and>
   main broken_fs_rev = ([], Some FileNotFoundError)"
proof -
  have m: "map_of (entries broken_fs) = map_of (entries broken_fs_rev)"
    by (rule ext) (simp add: broken_fs_rev_def broken_fs_def locked_fs_def)
  have a: "main broken_fs = ([], Some PermissionError)" by code_simp
  have b: "main broken_fs_rev = ([], Some FileNotFoundError)" by code_simp
  from m a b show ?thesis by (simp add: broken_fs_rev_def)
qed

text \<open>
  C10. After \<open>scan_usage\<close> has returned on the endpoints that \<open>parse_endpoints\<close>
  gave, the two lists have the same length and, place by place, the scanned endpoint has
  at most one entry in \<open>matches\<close>, is used exactly when \<open>matches\<close> is not empty, and
  has the \<open>method\<close>, \<open>path\<close>, \<open>line\<close> and \<open>regex\<close> that \<open>parse_endpoints\<close>
  assigned.
\<close>

theorem scan_usage_invariant:
  assumes "parse_endpoints fs = Inr eps" and "scan_usage fs eps = Inr eps'"
  shows "list_all2 (\<lambda>ep ep'.
           length (matches ep') \<le> 1 \<and> used ep' = (matches ep' \<noteq> []) \<and>
           method' ep' = method' ep \<and> path ep' = path ep \<and> line ep' = line ep \<and>
           regex ep' = regex ep) eps eps'"
proof -
  have eps': "eps' = map (scan_one (scanned_files fs)) eps"
    using assms(2) by (auto simp: scan_usage_result split: option.splits)
  have "length (matches (scan_one fl ep)) \<le> 1 \<and> used (scan_one fl ep) = (matches (scan_one fl ep) \<noteq> []) \<and>
        method' (scan_one fl ep) = method' ep \<and> path (scan_one fl ep) = path ep \<and>
        line (scan_one fl ep) = line ep \<and> regex (scan_one fl ep) = regex ep"
    if "ep \<in> set eps" for ep fl
    using parse_endpoints_fresh [OF assms(1) that]
    by (auto simp: scan_one_def split: option.splits)
  then show ?thesis
    unfolding eps' list_all2_map2 by (intro list_all2_all_nthI) auto
qed

theorem scan_usage_invariant_witness:
  "parse_endpoints example_fs = Inr example_endpoints \<and>
   scan_usage example_fs example_endpoints =
     Inr [(example_endpoints ! 0)\<lparr>used := True, matches := [[''ui'', ''app.js'']]\<rparr>,
          example_endpoints ! 1] \<and>
   list_all2 (\<lambda>ep ep'.
           length (matches ep') \<le> 1 \<and> used ep' = (matches ep' \<noteq> []) \<and>
           method' ep' = method' ep \<and> path ep' = path ep \<and> line ep' = line ep \<and>
           regex ep' = regex ep) example_endpoints
     [(example_endpoints ! 0)\<lparr>used := True, matches := [[''ui'', ''app.js'']]\<rparr>,
          example_endpoints ! 1]"
  using scan_usage_invariant [OF example_parse example_scan] example_parse example_scan
  by simp

end
